theory Spec2Isabelle
  imports Complex_Main "HOL-Library.Word" "HOL-Library.Multiset"
begin

section \<open>Floating-point values\<close>

text \<open>
  The program computes with \<^verbatim>\<open>float\<close> and \<^verbatim>\<open>double\<close>. A value is modelled as
  either a finite number, carried as an exact real, or one of the three non-finite
  IEEE values. Rounding and overflow of finite results are outside the model; what is
  kept is every place where the program can produce or test a non-finite value
  (division by zero, \<^verbatim>\<open>std::isfinite\<close>, comparisons that are false on NaN).
  There is a single zero, which behaves as \<^verbatim>\<open>+0.0\<close> when it is a divisor.
\<close>

datatype fval = Fin real | PInf | MInf | NaN

fun isfinite :: "fval \<Rightarrow> bool" where
  "isfinite (Fin _) = True"
| "isfinite _ = False"

fun fsign :: "fval \<Rightarrow> real" where
  "fsign (Fin a) = sgn a"
| "fsign PInf = 1"
| "fsign MInf = - 1"
| "fsign NaN = 0"

definition inf_of_sign :: "real \<Rightarrow> fval" where
  "inf_of_sign s = (if s > 0 then PInf else if s < 0 then MInf else NaN)"

fun fadd :: "fval \<Rightarrow> fval \<Rightarrow> fval" where
  "fadd (Fin a) (Fin b) = Fin (a + b)"
| "fadd NaN _ = NaN"
| "fadd _ NaN = NaN"
| "fadd PInf MInf = NaN"
| "fadd MInf PInf = NaN"
| "fadd PInf _ = PInf"
| "fadd _ PInf = PInf"
| "fadd MInf _ = MInf"
| "fadd _ MInf = MInf"

fun fneg :: "fval \<Rightarrow> fval" where
  "fneg (Fin a) = Fin (- a)"
| "fneg PInf = MInf"
| "fneg MInf = PInf"
| "fneg NaN = NaN"

definition fsub :: "fval \<Rightarrow> fval \<Rightarrow> fval" where
  "fsub x y = fadd x (fneg y)"

fun fmul :: "fval \<Rightarrow> fval \<Rightarrow> fval" where
  "fmul (Fin a) (Fin b) = Fin (a * b)"
| "fmul NaN _ = NaN"
| "fmul _ NaN = NaN"
| "fmul x y = inf_of_sign (fsign x * fsign y)"

fun fdiv :: "fval \<Rightarrow> fval \<Rightarrow> fval" where
  "fdiv (Fin a) (Fin b) = (if b = 0 then inf_of_sign (sgn a) else Fin (a / b))"
| "fdiv NaN _ = NaN"
| "fdiv _ NaN = NaN"
| "fdiv (Fin a) _ = Fin 0"
| "fdiv x (Fin b) = inf_of_sign (fsign x * (if b < 0 then - 1 else 1))"
| "fdiv _ _ = NaN"

fun flt :: "fval \<Rightarrow> fval \<Rightarrow> bool" where
  "flt (Fin a) (Fin b) = (a < b)"
| "flt NaN _ = False"
| "flt _ NaN = False"
| "flt MInf y = (y \<noteq> MInf)"
| "flt x PInf = (x \<noteq> PInf)"
| "flt _ _ = False"

definition fgt :: "fval \<Rightarrow> fval \<Rightarrow> bool" where
  "fgt x y = flt y x"

text \<open>A floating-point value used as a condition is true unless it is zero.\<close>

definition ftruthy :: "fval \<Rightarrow> bool" where
  "ftruthy x = (x \<noteq> Fin 0)"

fun fsqrt :: "fval \<Rightarrow> fval" where
  "fsqrt (Fin a) = (if a < 0 then NaN else Fin (sqrt a))"
| "fsqrt PInf = PInf"
| "fsqrt _ = NaN"

text \<open>
  \<^verbatim>\<open>std::pow (x, y)\<close> for a finite exponent \<open>y\<close>: the result is 1 for a zero exponent
  whatever the base, also a NaN base.
\<close>

definition is_int_valued :: "real \<Rightarrow> bool" where
  "is_int_valued y = (y = of_int \<lfloor>y\<rfloor>)"

fun fpow :: "fval \<Rightarrow> real \<Rightarrow> fval" where
  "fpow (Fin x) y =
     (if y = 0 then Fin 1
      else if x > 0 then Fin (x powr y)
      else if x = 0 then (if y > 0 then Fin 0 else PInf)
      else if is_int_valued y then Fin ((if even \<lfloor>y\<rfloor> then 1 else - 1) * (\<bar>x\<bar> powr y))
      else NaN)"
| "fpow PInf y = (if y = 0 then Fin 1 else if y > 0 then PInf else Fin 0)"
| "fpow MInf y =
     (if y = 0 then Fin 1
      else if y < 0 then Fin 0
      else if is_int_valued y \<and> odd \<lfloor>y\<rfloor> then MInf else PInf)"
| "fpow NaN y = (if y = 0 then Fin 1 else NaN)"

definition fsum :: "fval list \<Rightarrow> fval" where
  "fsum xs = foldl fadd (Fin 0) xs"


section \<open>Failures\<close>

text \<open>
  \<open>Exception\<close> is a thrown \<^verbatim>\<open>MR::Exception\<close> with its message. \<open>OutOfBounds\<close> is an access
  outside a vector or matrix, or an operation on matrices whose sizes do not fit: the
  library asserts on it and the behaviour is otherwise undefined.
\<close>

datatype error = Exception string | OutOfBounds


section \<open>Corrected p-values from the permutation distribution (stats/permute.h)\<close>

text \<open>
  The inner loop of \<^verbatim>\<open>statistic2pvalue\<close>: scan the sorted distribution from index \<open>i\<close>,
  stop at the first entry strictly greater than the statistic and return
  \<open>i / permutations.size()\<close>; the initial value 1 stays when no entry is greater.
\<close>

fun pvalue_scan :: "real \<Rightarrow> real list \<Rightarrow> nat \<Rightarrow> nat \<Rightarrow> real" where
  "pvalue_scan tvalue [] i n = 1"
| "pvalue_scan tvalue (p # ps) i n =
     (if tvalue < p then real i / real n else pvalue_scan tvalue ps (Suc i) n)"

text \<open>The value written for one voxel; the distribution is copied and sorted first.\<close>

definition statistic2pvalue :: "real list \<Rightarrow> real \<Rightarrow> real" where
  "statistic2pvalue perm_dist tvalue =
     (let permutations = sort perm_dist in
      if tvalue > 0 then pvalue_scan tvalue permutations 0 (length permutations) else 0)"

text \<open>The outer loop: one value per voxel of the statistic image.\<close>

definition statistic2pvalue_image :: "real list \<Rightarrow> real list \<Rightarrow> real list" where
  "statistic2pvalue_image perm_dist stat_voxel = map (statistic2pvalue perm_dist) stat_voxel"

text \<open>
  The formula of the specification, to compare with: one minus the rank of the smallest
  entry strictly greater than the statistic, over the number of permutations. The rank
  counts positions in the sorted distribution from \<open>base\<close> (0 or 1).
\<close>

definition rank_first_greater :: "nat \<Rightarrow> real list \<Rightarrow> real \<Rightarrow> nat" where
  "rank_first_greater base perm_dist t_obs =
     base + length (takeWhile (\<lambda>x. x \<le> t_obs) (sort perm_dist))"

definition spec_p_fwe :: "nat \<Rightarrow> real list \<Rightarrow> real \<Rightarrow> real" where
  "spec_p_fwe base perm_dist t_obs =
     (if t_obs \<le> 0 then 0
      else 1 - real (rank_first_greater base perm_dist t_obs) / real (length perm_dist))"


section \<open>Reading the streamline count (cmd/fixelcfestats.cpp)\<close>

text \<open>
  \<^verbatim>\<open>to<int>\<close> is a function of the core library, taken as a parameter: it turns the
  text of the property into a 32-bit \<^verbatim>\<open>int\<close> or throws. The result is stored in a
  \<^verbatim>\<open>size_t\<close>, so a negative count is sign-extended to 64 bits.
\<close>

type_synonym properties = "string \<rightharpoonup> string"

definition property_text :: "properties \<Rightarrow> string \<Rightarrow> string" where
  "property_text props key = (case props key of None \<Rightarrow> [] | Some s \<Rightarrow> s)"

text \<open>
  The conditional expression \<^verbatim>\<open>properties["count"].empty() ? 0 : to<int> (properties["count"])\<close>,
  an \<^verbatim>\<open>int\<close>: the count that the file declares.
\<close>

definition declared_count :: "(string \<Rightarrow> error + 32 word) \<Rightarrow> properties \<Rightarrow> error + 32 word" where
  "declared_count to_int props =
     (if property_text props ''count'' = [] then Inr 0
      else to_int (property_text props ''count''))"

definition read_num_tracks :: "(string \<Rightarrow> error + 32 word) \<Rightarrow> properties \<Rightarrow> error + 64 word" where
  "read_num_tracks to_int props =
     (case declared_count to_int props of
        Inl e \<Rightarrow> Inl e
      | Inr n \<Rightarrow> Inr (scast n))"

definition few_tracks_warning :: string where
  "few_tracks_warning = ''more than 1 million tracks is preferable to ensure robust fixel-fixel connectivity''"

text \<open>
  The start of the graph construction: the count is checked, a warning may be issued,
  and only then the streamlines are run through the pipeline, here the parameter
  \<open>accumulate\<close>. The result carries the warnings and what the pipeline built.
\<close>

definition compute_connectivity ::
  "(string \<Rightarrow> error + 32 word) \<Rightarrow> properties \<Rightarrow> (64 word \<Rightarrow> 'g) \<Rightarrow> error + (string list \<times> 'g)" where
  "compute_connectivity to_int props accumulate =
     (case read_num_tracks to_int props of
        Inl e \<Rightarrow> Inl e
      | Inr num_tracks \<Rightarrow>
          if num_tracks = 0 then Inl (Exception ''no tracks found in input file'')
          else Inr (if num_tracks < 1000000 then [few_tracks_warning] else [],
                    accumulate num_tracks))"

section \<open>Normalising the connectivity matrix, smoothing weights (cmd/fixelcfestats.cpp)\<close>

text \<open>
  A \<^verbatim>\<open>std::map<uint32_t, float>\<close> is the list of its entries in the order of
  iteration. \<^verbatim>\<open>insert\<close> leaves the map as it is when the key is already there.
\<close>

type_synonym vec3 = "real \<times> real \<times> real"
type_synonym row = "(nat \<times> fval) list"

definition has_key :: "row \<Rightarrow> nat \<Rightarrow> bool" where
  "has_key m k = (k \<in> fst ` set m)"

definition map_insert :: "nat \<Rightarrow> fval \<Rightarrow> row \<Rightarrow> row" where
  "map_insert k v m = (if has_key m k then m else insort_key fst (k, v) m)"

text \<open>The options as \<^verbatim>\<open>run\<close> reads them, and the constants it derives.\<close>

record cfe_options =
  smooth_fwhm :: real
  connectivity_threshold :: real
  cfe_c :: real

definition smooth_std_dev :: "cfe_options \<Rightarrow> real" where
  "smooth_std_dev opts = smooth_fwhm opts / 2.3548"

definition do_smoothing :: "cfe_options \<Rightarrow> bool" where
  "do_smoothing opts = (smooth_std_dev opts > 0)"

definition gaussian_const2 :: "cfe_options \<Rightarrow> real" where
  "gaussian_const2 opts = 2 * smooth_std_dev opts * smooth_std_dev opts"

definition gaussian_const1 :: "cfe_options \<Rightarrow> real" where
  "gaussian_const1 opts =
     (if smooth_std_dev opts > 0 then 1 / (smooth_std_dev opts * sqrt (2 * pi)) else 1)"

definition fixel_distance :: "vec3 \<Rightarrow> vec3 \<Rightarrow> real" where
  "fixel_distance p q =
     sqrt ((fst p - fst q)\<^sup>2 + (fst (snd p) - fst (snd q))\<^sup>2 + (snd (snd p) - snd (snd q))\<^sup>2)"

definition connectivity_fraction :: "fval \<Rightarrow> 16 word \<Rightarrow> fval" where
  "connectivity_fraction v tdi = fdiv v (Fin (real (unat tdi)))"

definition smoothing_weight :: "cfe_options \<Rightarrow> vec3 \<Rightarrow> vec3 \<Rightarrow> fval \<Rightarrow> fval" where
  "smoothing_weight opts p q connectivity =
     fmul (fmul connectivity (Fin (gaussian_const1 opts)))
          (Fin (exp (- ((fixel_distance p q)\<^sup>2) / gaussian_const2 opts)))"

text \<open>
  The \<^verbatim>\<open>while\<close> loop over the edges of one fixel. It returns the edges that stay, each
  with its pre-exponentiated value, and the smoothing weights collected so far.
  \<^verbatim>\<open>positions\<close> is read at the fixel and at the neighbour only when smoothing is on.
\<close>

fun normalise_edges ::
  "cfe_options \<Rightarrow> vec3 list \<Rightarrow> nat \<Rightarrow> 16 word \<Rightarrow> row \<Rightarrow> row \<Rightarrow> error + (row \<times> row)" where
  "normalise_edges opts positions fixel tdi [] sw = Inr ([], sw)"
| "normalise_edges opts positions fixel tdi ((j, v) # es) sw =
     (let connectivity = connectivity_fraction v tdi in
      if flt connectivity (Fin (connectivity_threshold opts))
      then normalise_edges opts positions fixel tdi es sw
      else if do_smoothing opts \<and> \<not> (fixel < length positions \<and> j < length positions)
      then Inl OutOfBounds
      else
        let sw' =
              (if do_smoothing opts
               then let w = smoothing_weight opts (positions ! fixel) (positions ! j) connectivity
                    in if fgt w (Fin 0.01) then map_insert j w sw else sw
               else sw)
        in case normalise_edges opts positions fixel tdi es sw' of
             Inl e \<Rightarrow> Inl e
           | Inr (cm, sw'') \<Rightarrow> Inr ((j, fpow connectivity (cfe_c opts)) # cm, sw''))"

text \<open>The smoothing weights of a fixel once its own weight is inserted, before they are scaled.\<close>

definition raw_smoothing_weights ::
  "cfe_options \<Rightarrow> vec3 list \<Rightarrow> nat \<Rightarrow> 16 word \<Rightarrow> row \<Rightarrow> error + row" where
  "raw_smoothing_weights opts positions fixel tdi edges =
     (case normalise_edges opts positions fixel tdi edges [] of
        Inl e \<Rightarrow> Inl e
      | Inr (cm, sw) \<Rightarrow> Inr (map_insert fixel (Fin (gaussian_const1 opts)) sw))"

definition weights_sum :: "row \<Rightarrow> fval" where
  "weights_sum sw = fsum (map snd sw)"

definition norm_factor :: "row \<Rightarrow> fval" where
  "norm_factor sw = fdiv (Fin 1) (weights_sum sw)"

definition scale_weights :: "row \<Rightarrow> row" where
  "scale_weights sw = map (\<lambda>(j, w). (j, fmul w (norm_factor sw))) sw"

text \<open>One pass of the \<^verbatim>\<open>for\<close> loop: the new edges and the scaled smoothing weights of a fixel.\<close>

definition normalise_fixel ::
  "cfe_options \<Rightarrow> vec3 list \<Rightarrow> nat \<Rightarrow> 16 word \<Rightarrow> row \<Rightarrow> error + (row \<times> row)" where
  "normalise_fixel opts positions fixel tdi edges =
     (case normalise_edges opts positions fixel tdi edges [] of
        Inl e \<Rightarrow> Inl e
      | Inr (cm, sw) \<Rightarrow>
          Inr (map_insert fixel (Fin 1) cm,
               scale_weights (map_insert fixel (Fin (gaussian_const1 opts)) sw)))"

fun collect :: "(error + 'a) list \<Rightarrow> error + 'a list" where
  "collect [] = Inr []"
| "collect (Inl e # rs) = Inl e"
| "collect (Inr x # rs) = (case collect rs of Inl e \<Rightarrow> Inl e | Inr xs \<Rightarrow> Inr (x # xs))"

definition normalise_step ::
  "cfe_options \<Rightarrow> vec3 list \<Rightarrow> 16 word list \<Rightarrow> row list \<Rightarrow> nat \<Rightarrow> error + (row \<times> row)" where
  "normalise_step opts positions fixel_TDI connectivity_matrix fixel =
     (if fixel < length fixel_TDI \<and> fixel < length connectivity_matrix
      then normalise_fixel opts positions fixel (fixel_TDI ! fixel) (connectivity_matrix ! fixel)
      else Inl OutOfBounds)"

text \<open>The whole phase: the connectivity matrix and the smoothing weights of all fixels.\<close>

definition normalise ::
  "cfe_options \<Rightarrow> nat \<Rightarrow> vec3 list \<Rightarrow> 16 word list \<Rightarrow> row list \<Rightarrow> error + (row list \<times> row list)" where
  "normalise opts num_fixels positions fixel_TDI connectivity_matrix =
     (case collect (map (normalise_step opts positions fixel_TDI connectivity_matrix) [0..<num_fixels]) of
        Inl e \<Rightarrow> Inl e
      | Inr rs \<Rightarrow> Inr (map fst rs, map snd rs))"

text \<open>
  What the graph builder hands over for one fixel: the keys of the map are distinct,
  the fixel is not its own neighbour, every count is a finite number between 0 and the
  track density of the fixel, and a fixel with neighbours has been traversed.
\<close>

definition built_row :: "nat \<Rightarrow> 16 word \<Rightarrow> row \<Rightarrow> bool" where
  "built_row fixel tdi edges =
     (distinct (map fst edges) \<and> \<not> has_key edges fixel \<and>
      (\<forall>e\<in>set edges. \<exists>c. snd e = Fin c \<and> 0 \<le> c \<and> c \<le> real (unat tdi)) \<and>
      (edges \<noteq> [] \<longrightarrow> tdi \<noteq> 0))"


definition fin_val :: "fval \<Rightarrow> real" where
  "fin_val x = (case x of Fin r \<Rightarrow> r | _ \<Rightarrow> 0)"


section \<open>Smoothing the data of one subject (cmd/fixelcfestats.cpp)\<close>

text \<open>The inner loop: the weighted sum and the sum of weights over the finite neighbours.\<close>

fun smooth_accumulate :: "fval list \<Rightarrow> row \<Rightarrow> fval \<Rightarrow> fval \<Rightarrow> error + (fval \<times> fval)" where
  "smooth_accumulate data [] val sum_weights = Inr (val, sum_weights)"
| "smooth_accumulate data ((j, w) # ws) val sum_weights =
     (if j < length data
      then if isfinite (data ! j)
           then smooth_accumulate data ws (fadd val (fmul (data ! j) w)) (fadd sum_weights w)
           else smooth_accumulate data ws val sum_weights
      else Inl OutOfBounds)"

definition smooth_fixel :: "fval list \<Rightarrow> row list \<Rightarrow> nat \<Rightarrow> error + fval" where
  "smooth_fixel data smoothing_weights fixel =
     (if fixel < length data \<and> fixel < length smoothing_weights
      then if isfinite (data ! fixel)
           then case smooth_accumulate data (smoothing_weights ! fixel) (Fin 0) (Fin 0) of
                  Inl e \<Rightarrow> Inl e
                | Inr (val, sum_weights) \<Rightarrow>
                    Inr (if ftruthy sum_weights then fdiv val sum_weights else NaN)
           else Inr NaN
      else Inl OutOfBounds)"

definition smooth_subject :: "nat \<Rightarrow> fval list \<Rightarrow> row list \<Rightarrow> error + fval list" where
  "smooth_subject num_fixels data smoothing_weights =
     collect (map (smooth_fixel data smoothing_weights) [0..<num_fixels])"

text \<open>
  The smoother as the specification words it: the weighted mean over the neighbours
  with a finite value, NaN when there is none.
\<close>

definition finite_neighbours :: "fval list \<Rightarrow> row \<Rightarrow> row" where
  "finite_neighbours data ws = filter (\<lambda>e. isfinite (data ! fst e)) ws"

definition spec_smooth :: "fval list \<Rightarrow> row \<Rightarrow> fval" where
  "spec_smooth data ws =
     (if finite_neighbours data ws = [] then NaN
      else fdiv (fsum (map (\<lambda>e. fmul (data ! fst e) (snd e)) (finite_neighbours data ws)))
                (fsum (map snd (finite_neighbours data ws))))"

section \<open>Matrices\<close>

text \<open>
  A dynamic matrix has its two sizes and its coefficients. Every read below is guarded
  by the sizes; an operation whose sizes do not fit fails with \<open>OutOfBounds\<close>.
\<close>

record mat =
  nrows :: nat
  ncols :: nat
  el :: "nat \<Rightarrow> nat \<Rightarrow> fval"

definition mat_of_rows :: "fval list list \<Rightarrow> mat" where
  "mat_of_rows rs =
     \<lparr>nrows = length rs, ncols = (case rs of [] \<Rightarrow> 0 | r # _ \<Rightarrow> length r),
      el = (\<lambda>i j. rs ! i ! j)\<rparr>"

definition mat_transpose :: "mat \<Rightarrow> mat" where
  "mat_transpose m = \<lparr>nrows = ncols m, ncols = nrows m, el = (\<lambda>i j. el m j i)\<rparr>"

definition mat_mult :: "mat \<Rightarrow> mat \<Rightarrow> error + mat" where
  "mat_mult a b =
     (if ncols a = nrows b
      then Inr \<lparr>nrows = nrows a, ncols = ncols b,
                el = (\<lambda>i j. fsum (map (\<lambda>k. fmul (el a i k) (el b k j)) [0..<ncols a]))\<rparr>
      else Inl OutOfBounds)"

definition mat_sub :: "mat \<Rightarrow> mat \<Rightarrow> error + mat" where
  "mat_sub a b =
     (if nrows a = nrows b \<and> ncols a = ncols b
      then Inr \<lparr>nrows = nrows a, ncols = ncols a, el = (\<lambda>i j. fsub (el a i j) (el b i j))\<rparr>
      else Inl OutOfBounds)"

definition row_norm :: "mat \<Rightarrow> nat \<Rightarrow> fval" where
  "row_norm m n = fsqrt (fsum (map (\<lambda>j. fmul (el m n j) (el m n j)) [0..<ncols m]))"

text \<open>\<^verbatim>\<open>m.block (i, j, nr, nc)\<close>: \<open>nr\<close> rows and \<open>nc\<close> columns of \<open>m\<close> from row \<open>i\<close> and column \<open>j\<close>.\<close>

definition mat_block :: "mat \<Rightarrow> nat \<Rightarrow> nat \<Rightarrow> nat \<Rightarrow> nat \<Rightarrow> error + mat" where
  "mat_block m i j nr nc =
     (if i + nr \<le> nrows m \<and> j + nc \<le> ncols m
      then Inr \<lparr>nrows = nr, ncols = nc, el = (\<lambda>a b. el m (i + a) (j + b))\<rparr>
      else Inl OutOfBounds)"

text \<open>
  \<^verbatim>\<open>m.resize (r, c)\<close> keeps the coefficients, in column-major order, when their number
  stays the same; otherwise the storage is allocated anew and holds whatever was there,
  the parameter \<open>junk\<close>.
\<close>

definition mat_resize :: "(nat \<Rightarrow> nat \<Rightarrow> fval) \<Rightarrow> mat \<Rightarrow> nat \<Rightarrow> nat \<Rightarrow> mat" where
  "mat_resize junk m r c =
     (if r * c = nrows m * ncols m
      then \<lparr>nrows = r, ncols = c,
            el = (\<lambda>i j. el m ((j * r + i) mod nrows m) ((j * r + i) div nrows m))\<rparr>
      else \<lparr>nrows = r, ncols = c, el = junk\<rparr>)"

definition scale_row :: "mat \<Rightarrow> nat \<Rightarrow> fval \<Rightarrow> mat" where
  "scale_row m n f = m\<lparr>el := (\<lambda>i j. if i = n then fmul (el m i j) f else el m i j)\<rparr>"

text \<open>A loop over indices whose body can fail: the first failure ends it.\<close>

fun fold_err :: "(nat \<Rightarrow> 's \<Rightarrow> error + 's) \<Rightarrow> nat list \<Rightarrow> 's \<Rightarrow> error + 's" where
  "fold_err f [] s = Inr s"
| "fold_err f (n # ns) s = (case f n s of Inl e \<Rightarrow> Inl e | Inr s' \<Rightarrow> fold_err f ns s')"


section \<open>The general linear model (lib/math/stats/glm.h)\<close>

definition GLM_BATCH_SIZE :: nat where
  "GLM_BATCH_SIZE = 1024"

definition univariate_only :: string where
  "univariate_only = ''too many columns in contrast matrix: this implementation currently only supports univariate GLM''"

text \<open>
  One pass of the loop of \<^verbatim>\<open>scale_contrasts\<close>: row \<open>n\<close> of the given contrasts is
  multiplied into \<open>XtX\<close>, and row \<open>n\<close> of the scaled contrasts is multiplied by the root
  of the degrees of freedom over the resulting quadratic form.
\<close>

definition scale_contrasts_step :: "mat \<Rightarrow> mat \<Rightarrow> nat \<Rightarrow> nat \<Rightarrow> mat \<Rightarrow> error + mat" where
  "scale_contrasts_step XtX contrasts degrees_of_freedom n scaled =
     (if n < nrows contrasts \<and> ncols XtX = ncols contrasts \<and> ncols contrasts = nrows XtX
      then let pinv_XtX_c = (\<lambda>i. fsum (map (\<lambda>k. fmul (el XtX i k) (el contrasts n k)) [0..<ncols XtX]));
               q = fsum (map (\<lambda>k. fmul (el contrasts n k) (pinv_XtX_c k)) [0..<ncols contrasts])
           in if n < nrows scaled
              then Inr (scale_row scaled n (fsqrt (fdiv (Fin (real degrees_of_freedom)) q)))
              else Inl OutOfBounds
      else Inl OutOfBounds)"

text \<open>The product \<^verbatim>\<open>design.transpose() * design\<close>, whose sizes always fit.\<close>

definition gram :: "mat \<Rightarrow> mat" where
  "gram design =
     \<lparr>nrows = ncols design, ncols = ncols design,
      el = (\<lambda>i j. fsum (map (\<lambda>k. fmul (el design k i) (el design k j)) [0..<nrows design]))\<rparr>"

text \<open>
  \<^verbatim>\<open>Math::pinv\<close> is a function of the core library, taken as the parameter \<open>pinv\<close>.
\<close>

definition scale_contrasts ::
  "(mat \<Rightarrow> mat) \<Rightarrow> (nat \<Rightarrow> nat \<Rightarrow> fval) \<Rightarrow> mat \<Rightarrow> mat \<Rightarrow> nat \<Rightarrow> error + mat" where
  "scale_contrasts pinv junk contrasts design degrees_of_freedom =
     (let XtX = pinv (gram design);
          scaled_contrasts = contrasts
      in if ncols scaled_contrasts > 1 \<and> nrows scaled_contrasts > 1
         then Inl (Exception univariate_only)
         else let transposed = (if nrows scaled_contrasts > 1
                                then mat_transpose scaled_contrasts else scaled_contrasts);
                  resized = mat_resize junk transposed (nrows transposed) (ncols design)
              in fold_err (scale_contrasts_step XtX contrasts degrees_of_freedom)
                          [0..<nrows contrasts] resized)"

text \<open>
  \<^verbatim>\<open>GLM::ttest\<close>. The matrices of effects and residuals are working storage of the
  caller; the t-values are what it reads back.
\<close>

definition ttest :: "mat \<Rightarrow> mat \<Rightarrow> mat \<Rightarrow> mat \<Rightarrow> error + mat" where
  "ttest design pinv_design measurements scaled_contrasts =
     (case mat_mult measurements pinv_design of
        Inl e \<Rightarrow> Inl e
      | Inr betas \<Rightarrow>
          (case mat_mult betas design of
             Inl e \<Rightarrow> Inl e
           | Inr fitted \<Rightarrow>
               (case mat_sub measurements fitted of
                  Inl e \<Rightarrow> Inl e
                | Inr residuals \<Rightarrow>
                    (case mat_mult betas scaled_contrasts of
                       Inl e \<Rightarrow> Inl e
                     | Inr tvalues \<Rightarrow>
                         Inr (tvalues\<lparr>el := (\<lambda>n j. if n < nrows tvalues
                                                    then fdiv (el tvalues n j) (row_norm residuals n)
                                                    else el tvalues n j)\<rparr>)))))"

text \<open>The class \<^verbatim>\<open>GLMTTest\<close>: its members, its constructor and its call operator.\<close>

record GLMTTest =
  glm_y :: mat
  glm_X :: mat
  glm_pinvX :: mat
  glm_scaled_contrasts :: mat

text \<open>
  \<^verbatim>\<open>Math::rank\<close> is a function of the core library, taken as the parameter \<open>rank\<close>. The
  degrees of freedom are an unsigned difference of 64 bits.
\<close>

definition GLMTTest_init ::
  "(mat \<Rightarrow> mat) \<Rightarrow> (mat \<Rightarrow> nat) \<Rightarrow> (nat \<Rightarrow> nat \<Rightarrow> fval) \<Rightarrow> mat \<Rightarrow> mat \<Rightarrow> mat \<Rightarrow> error + GLMTTest" where
  "GLMTTest_init pinv rank junk measurements design contrast =
     (case scale_contrasts pinv junk contrast design
             ((nrows design + 2 ^ 64 - rank design mod 2 ^ 64) mod 2 ^ 64) of
        Inl e \<Rightarrow> Inl e
      | Inr sc \<Rightarrow>
          Inr \<lparr>glm_y = measurements, glm_X = design, glm_pinvX = pinv design,
               glm_scaled_contrasts = mat_transpose sc\<rparr>)"

definition resize_stats :: "fval list \<Rightarrow> nat \<Rightarrow> fval list" where
  "resize_stats stats n = take n stats @ replicate (n - length stats) (Fin 0)"

text \<open>
  The first loop of the call operator: row \<open>i\<close> of \<open>SX\<close> is row \<open>perm_labelling[i]\<close> of
  \<open>X\<close>, column \<open>i\<close> of \<open>pinvSX\<close> is column \<open>perm_labelling[i]\<close> of \<open>pinvX\<close>.
\<close>

definition permute_step :: "mat \<Rightarrow> mat \<Rightarrow> nat list \<Rightarrow> nat \<Rightarrow> mat \<times> mat \<Rightarrow> error + (mat \<times> mat)" where
  "permute_step X pinvX perm_labelling i S =
     (if i < length perm_labelling \<and> perm_labelling ! i < nrows X \<and>
         i < ncols pinvX \<and> perm_labelling ! i < ncols pinvX
      then Inr ((fst S)\<lparr>el := (\<lambda>a b. if a = i then el X (perm_labelling ! i) b else el (fst S) a b)\<rparr>,
                (snd S)\<lparr>el := (\<lambda>a b. if b = i then el pinvX a (perm_labelling ! i) else el (snd S) a b)\<rparr>)
      else Inl OutOfBounds)"

definition permute_design ::
  "(nat \<Rightarrow> nat \<Rightarrow> fval) \<Rightarrow> mat \<Rightarrow> mat \<Rightarrow> nat list \<Rightarrow> error + (mat \<times> mat)" where
  "permute_design junk X pinvX perm_labelling =
     fold_err (permute_step X pinvX perm_labelling) [0..<nrows X]
       (\<lparr>nrows = nrows X, ncols = ncols X, el = junk\<rparr>,
        \<lparr>nrows = nrows pinvX, ncols = ncols pinvX, el = junk\<rparr>)"

text \<open>
  The loop over the rows of one batch: the value in column 0 goes to \<open>stats[i+n]\<close>, as 0
  when it is not finite, and a finite one updates the running maximum and minimum.
\<close>

definition store_tvalue ::
  "mat \<Rightarrow> nat \<Rightarrow> nat \<Rightarrow> fval list \<times> fval \<times> fval \<Rightarrow> error + (fval list \<times> fval \<times> fval)" where
  "store_tvalue tvalues i n S =
     (case S of (stats, max_stat, min_stat) \<Rightarrow>
        if n < nrows tvalues \<and> 0 < ncols tvalues \<and> i + n < length stats
        then let val = el tvalues n 0
             in if isfinite val
                then Inr (stats[i + n := val],
                          if fgt val max_stat then val else max_stat,
                          if flt val min_stat then val else min_stat)
                else Inr (stats[i + n := Fin 0], max_stat, min_stat)
        else Inl OutOfBounds)"

text \<open>
  The loop over the batches, from row \<open>i\<close>. The third argument of \<^verbatim>\<open>block\<close> is
  \<^verbatim>\<open>std::min (i+GLM_BATCH_SIZE, y.rows())\<close>, as in the source.
\<close>

function batch_loop ::
  "GLMTTest \<Rightarrow> mat \<Rightarrow> mat \<Rightarrow> nat \<Rightarrow> fval list \<times> fval \<times> fval \<Rightarrow> error + (fval list \<times> fval \<times> fval)" where
  "batch_loop t SX pinvSX i S =
     (if i < nrows (glm_y t)
      then case mat_block (glm_y t) i 0 (min (i + GLM_BATCH_SIZE) (nrows (glm_y t))) (ncols (glm_y t)) of
             Inl e \<Rightarrow> Inl e
           | Inr tmp \<Rightarrow>
               (case ttest SX pinvSX tmp (glm_scaled_contrasts t) of
                  Inl e \<Rightarrow> Inl e
                | Inr tvalues \<Rightarrow>
                    (case fold_err (store_tvalue tvalues i) [0..<nrows tvalues] S of
                       Inl e \<Rightarrow> Inl e
                     | Inr S' \<Rightarrow> batch_loop t SX pinvSX (i + GLM_BATCH_SIZE) S'))
      else Inr S)"
  by pat_completeness auto
termination
  by (relation "measure (\<lambda>(t, SX, pinvSX, i, S). nrows (glm_y t) - i)")
     (auto simp: GLM_BATCH_SIZE_def)

declare batch_loop.simps [simp del]

definition GLMTTest_call ::
  "(nat \<Rightarrow> nat \<Rightarrow> fval) \<Rightarrow> GLMTTest \<Rightarrow> nat list \<Rightarrow> fval list \<Rightarrow> fval \<Rightarrow> fval
     \<Rightarrow> error + (fval list \<times> fval \<times> fval)" where
  "GLMTTest_call junk t perm_labelling stats max_stat min_stat =
     (case permute_design junk (glm_X t) (glm_pinvX t) perm_labelling of
        Inl e \<Rightarrow> Inl e
      | Inr (SX, pinvSX) \<Rightarrow>
          batch_loop t (mat_transpose SX) (mat_transpose pinvSX) 0
            (resize_stats stats (nrows (glm_y t)), max_stat, min_stat))"

text \<open>Constructing the test from a contrast matrix and calling it once.\<close>

definition GLMTTest_run ::
  "(mat \<Rightarrow> mat) \<Rightarrow> (mat \<Rightarrow> nat) \<Rightarrow> (nat \<Rightarrow> nat \<Rightarrow> fval) \<Rightarrow> mat \<Rightarrow> mat \<Rightarrow> mat \<Rightarrow> nat list
     \<Rightarrow> fval list \<Rightarrow> fval \<Rightarrow> fval \<Rightarrow> error + (fval list \<times> fval \<times> fval)" where
  "GLMTTest_run pinv rank junk measurements design contrast perm_labelling stats max_stat min_stat =
     (case GLMTTest_init pinv rank junk measurements design contrast of
        Inl e \<Rightarrow> Inl e
      | Inr t \<Rightarrow> GLMTTest_call junk t perm_labelling stats max_stat min_stat)"


text \<open>
  Two matrices that the loop over a batch cannot tell apart: as many rows, a column 0 in
  both or in neither, and the same coefficients in column 0.
\<close>

definition same_first_column :: "mat \<Rightarrow> mat \<Rightarrow> bool" where
  "same_first_column a b =
     (nrows a = nrows b \<and> ((ncols a = 0) = (ncols b = 0)) \<and> (\<forall>n<nrows a. el a n 0 = el b n 0))"


section \<open>The t-value by direct least squares\<close>

text \<open>
  The t-value of fixel \<open>n\<close> as the specification words it: the effects are the row of
  measurements times the pseudo-inverse of the design, the residual is the row less the
  effects times the design, and the t-value is the effects times the scaled contrast
  over the norm of the residual. A value that is not finite is reported as 0.
\<close>

definition direct_beta :: "GLMTTest \<Rightarrow> nat \<Rightarrow> nat \<Rightarrow> fval" where
  "direct_beta t n k =
     fsum (map (\<lambda>s. fmul (el (glm_y t) n s) (el (glm_pinvX t) k s)) [0..<ncols (glm_y t)])"

definition direct_residual :: "GLMTTest \<Rightarrow> nat \<Rightarrow> nat \<Rightarrow> fval" where
  "direct_residual t n s =
     fsub (el (glm_y t) n s)
          (fsum (map (\<lambda>k. fmul (direct_beta t n k) (el (glm_X t) s k)) [0..<ncols (glm_X t)]))"

definition direct_tvalue :: "GLMTTest \<Rightarrow> nat \<Rightarrow> fval" where
  "direct_tvalue t n =
     fdiv (fsum (map (\<lambda>k. fmul (direct_beta t n k) (el (glm_scaled_contrasts t) k 0))
                     [0..<ncols (glm_X t)]))
          (fsqrt (fsum (map (\<lambda>s. fmul (direct_residual t n s) (direct_residual t n s))
                            [0..<ncols (glm_y t)])))"

definition finite_or_zero :: "fval \<Rightarrow> fval" where
  "finite_or_zero v = (if isfinite v then v else Fin 0)"

text \<open>
  A test whose members fit together: the design has a row for each column of the
  measurements, the pseudo-inverse has the sizes of the transposed design, and the stored
  scaled contrasts have a row for each column of the design and at least one column.
\<close>

definition well_sized :: "GLMTTest \<Rightarrow> bool" where
  "well_sized t =
     (nrows (glm_X t) = ncols (glm_y t) \<and>
      nrows (glm_pinvX t) = ncols (glm_X t) \<and> ncols (glm_pinvX t) = nrows (glm_X t) \<and>
      nrows (glm_scaled_contrasts t) = ncols (glm_X t) \<and> 0 < ncols (glm_scaled_contrasts t))"


section \<open>The contrast in the older test (stats/permute.h)\<close>

text \<open>
  The start of the constructor of \<^verbatim>\<open>TFCEProcessorBase\<close>, which makes the contrast a
  column vector or throws.
\<close>

definition TFCEProcessorBase_contrast :: "mat \<Rightarrow> error + mat" where
  "TFCEProcessorBase_contrast contrast_matrix =
     (let c = contrast_matrix
      in if ncols c > 1 \<and> nrows c > 1 then Inl (Exception univariate_only)
         else Inr (if ncols c > 1 then mat_transpose c else c))"

section \<open>Examples\<close>

text \<open>
  A design of three subjects in two groups, the measurements of one fixel, and the
  pseudo-inverse on the two matrices that the test inverts for this design: the design
  itself and its Gram matrix.
\<close>

definition example_design :: mat where
  "example_design = mat_of_rows [[Fin 1, Fin 0], [Fin 1, Fin 0], [Fin 0, Fin 1]]"

definition example_measurements :: mat where
  "example_measurements = mat_of_rows [[Fin 1, Fin 3, Fin 5]]"

definition example_pinv :: "mat \<Rightarrow> mat" where
  "example_pinv m =
     (if nrows m = 3 then mat_of_rows [[Fin (1 / 2), Fin (1 / 2), Fin 0], [Fin 0, Fin 0, Fin 1]]
      else mat_of_rows [[Fin (1 / 2), Fin 0], [Fin 0, Fin 1]])"

text \<open>
  A test on 1025 fixels and two subjects of one group; every fixel has the values 0
  and 2, so that its t-value for the contrast 1 is 1. The members are those that the
  constructor computes for that contrast. The second test is the same on two fixels.
\<close>

definition overrun_test :: GLMTTest where
  "overrun_test =
     \<lparr>glm_y = \<lparr>nrows = 1025, ncols = 2, el = (\<lambda>i j. Fin (2 * real j))\<rparr>,
      glm_X = mat_of_rows [[Fin 1], [Fin 1]],
      glm_pinvX = mat_of_rows [[Fin (1 / 2), Fin (1 / 2)]],
      glm_scaled_contrasts = mat_of_rows [[Fin (sqrt 2)]]\<rparr>"

definition small_test :: GLMTTest where
  "small_test = overrun_test\<lparr>glm_y := \<lparr>nrows = 2, ncols = 2, el = (\<lambda>i j. Fin (2 * real j))\<rparr>\<rparr>"


section \<open>Auxiliary facts\<close>

lemma scast_zero_iff: "(scast (n :: 32 word) :: 64 word) = 0 \<longleftrightarrow> n = 0"
proof -
  have up: "is_up (scast :: 32 word \<Rightarrow> 64 word)" by (simp add: is_up)
  have "(scast n :: 64 word) = 0 \<longleftrightarrow> sint (scast n :: 64 word) = 0"
    by (simp add: signed_eq_0_iff)
  also have "\<dots> \<longleftrightarrow> sint n = 0" by (simp add: sint_up_scast [OF up])
  also have "\<dots> \<longleftrightarrow> n = 0" by (simp add: signed_eq_0_iff)
  finally show ?thesis .
qed

lemma scast_small:
  assumes "0 < sint (d :: 32 word)" "sint d < 1000000"
  shows "(scast d :: 64 word) < 1000000"
proof -
  have up: "is_up (scast :: 32 word \<Rightarrow> 64 word)" by (simp add: is_up)
  have s: "sint (scast d :: 64 word) = sint d" by (simp add: sint_up_scast [OF up])
  have "uint (scast d :: 64 word) = take_bit 64 (sint d)"
    using uint_sint [of "scast d :: 64 word"] s by simp
  also have "\<dots> = sint d" using assms by (simp add: take_bit_int_eq_self)
  finally show ?thesis using assms by (simp add: word_less_def)
qed

lemma collect_map_Inr: "collect (map Inr xs) = Inr xs"
  by (induction xs) simp_all

lemma collect_Inr_D: "collect rs = Inr xs \<Longrightarrow> rs = map Inr xs"
proof (induction rs arbitrary: xs)
  case Nil
  then show ?case by simp
next
  case (Cons r rs)
  then show ?case by (cases r) (auto split: sum.splits)
qed

lemma collect_Inr_iff: "collect rs = Inr xs \<longleftrightarrow> rs = map Inr xs"
  using collect_Inr_D collect_map_Inr by blast

lemma collect_upt:
  "collect (map f [0..<n]) = Inr xs \<longleftrightarrow> length xs = n \<and> (\<forall>i<n. f i = Inr (xs ! i))"
proof -
  have "map f [0..<n] = map Inr xs \<longleftrightarrow> length xs = n \<and> (\<forall>i<n. f i = Inr (xs ! i))"
    by (auto simp: list_eq_iff_nth_eq)
  then show ?thesis by (simp add: collect_Inr_iff)
qed

lemma fadd_zero_right [simp]: "fadd x (Fin 0) = x"
  by (cases x) simp_all

lemma fadd_zero_left [simp]: "fadd (Fin 0) x = x"
  by (cases x) simp_all

lemma fmul_one_right [simp]: "fmul x (Fin 1) = x"
  by (cases x) (simp_all add: inf_of_sign_def)

lemma foldl_fadd_Fin: "foldl fadd (Fin a) (map Fin ws) = Fin (a + sum_list ws)"
  by (induction ws arbitrary: a) (simp_all add: add.assoc)

lemma fsum_Fin: "fsum (map Fin ws) = Fin (sum_list ws)"
  by (simp add: fsum_def foldl_fadd_Fin)


section \<open>The corrected p-value\<close>

lemma pvalue_scan_sorted:
  "sorted ps \<Longrightarrow> pvalue_scan t ps i n =
     (if \<exists>x\<in>set ps. t < x then real (i + length (takeWhile (\<lambda>x. x \<le> t) ps)) / real n else 1)"
proof (induction ps arbitrary: i)
  case Nil
  then show ?case by simp
next
  case (Cons p ps)
  show ?case
  proof (cases "t < p")
    case True
    then show ?thesis by simp
  next
    case False
    with Cons show ?thesis by simp
  qed
qed

text \<open>
  C1, as the code has it. For a positive statistic the value is the number of entries of
  the sorted distribution that come before the first entry strictly greater than the
  statistic, over the number of permutations, and 1 when no entry is greater; it is 0
  for a statistic that is not positive. The distribution need not be sorted beforehand.
\<close>

theorem statistic2pvalue_rank:
  "statistic2pvalue perm_dist t_obs =
     (if t_obs \<le> 0 then 0
      else if \<exists>x\<in>set perm_dist. t_obs < x
           then real (rank_first_greater 0 perm_dist t_obs) / real (length perm_dist)
           else 1)"
  by (simp add: statistic2pvalue_def Let_def pvalue_scan_sorted rank_first_greater_def)

theorem statistic2pvalue_rank_witness:
  "statistic2pvalue [4, 2, 3, 1] (5 / 2) = 1 / 2"
  using statistic2pvalue_rank [of "[4, 2, 3, 1]" "5 / 2"]
  by (simp add: rank_first_greater_def)

text \<open>
  C1 as stated fails: with the distribution 1, 2, 3, 4 and the statistic 1/2 the code
  yields 0, while one minus the rank over the number of permutations is 1 (rank from 0)
  or 3/4 (rank from 1).
\<close>

theorem statistic2pvalue_spec_counterexample:
  "statistic2pvalue [1, 2, 3, 4] (1 / 2) \<noteq> spec_p_fwe 0 [1, 2, 3, 4] (1 / 2) \<and>
   statistic2pvalue [1, 2, 3, 4] (1 / 2) \<noteq> spec_p_fwe 1 [1, 2, 3, 4] (1 / 2)"
  by (simp add: statistic2pvalue_def spec_p_fwe_def rank_first_greater_def)


section \<open>The streamline count\<close>

text \<open>
  C9. When the count that the file declares can be read, the graph construction throws
  exactly when that count is 0, with the message of the check and without running the
  pipeline; a count above 0 and below 1000000 gives the warning and the pipeline runs.
\<close>

theorem compute_connectivity_count:
  assumes "declared_count to_int props = Inr d"
  shows "((\<exists>e. compute_connectivity to_int props accumulate = Inl e) \<longleftrightarrow> d = 0) \<and>
         (d = 0 \<longrightarrow> compute_connectivity to_int props accumulate
                      = Inl (Exception ''no tracks found in input file'')) \<and>
         (0 < sint d \<and> sint d < 1000000 \<longrightarrow>
            compute_connectivity to_int props accumulate
              = Inr ([few_tracks_warning], accumulate (scast d)))"
proof -
  have r: "read_num_tracks to_int props = Inr (scast d)"
    using assms by (simp add: read_num_tracks_def)
  have a: "(\<exists>e. compute_connectivity to_int props accumulate = Inl e) \<longleftrightarrow> d = 0"
    using r by (simp add: compute_connectivity_def scast_zero_iff)
  have b: "d = 0 \<longrightarrow> compute_connectivity to_int props accumulate
                      = Inl (Exception ''no tracks found in input file'')"
    using r by (simp add: compute_connectivity_def)
  have c: "0 < sint d \<and> sint d < 1000000 \<longrightarrow>
            compute_connectivity to_int props accumulate
              = Inr ([few_tracks_warning], accumulate (scast d))"
  proof
    assume h: "0 < sint d \<and> sint d < 1000000"
    then have "d \<noteq> 0" by auto
    then have "(scast d :: 64 word) \<noteq> 0" by (simp add: scast_zero_iff)
    moreover have "(scast d :: 64 word) < 1000000" using h by (simp add: scast_small)
    ultimately show "compute_connectivity to_int props accumulate
              = Inr ([few_tracks_warning], accumulate (scast d))"
      using r by (simp add: compute_connectivity_def)
  qed
  from a b c show ?thesis by blast
qed

theorem compute_connectivity_count_witness:
  "compute_connectivity (\<lambda>s. Inr 5000) [''count'' \<mapsto> ''5000''] (\<lambda>n. n)
     = Inr ([few_tracks_warning], scast (5000 :: 32 word)) \<and>
   compute_connectivity (\<lambda>s. Inr 0) [''count'' \<mapsto> ''0''] (\<lambda>n. n)
     = Inl (Exception ''no tracks found in input file'')"
proof -
  have a: "declared_count (\<lambda>s. Inr 5000) [''count'' \<mapsto> ''5000''] = Inr (5000 :: 32 word)"
    by (simp add: declared_count_def property_text_def)
  have b: "declared_count (\<lambda>s. Inr 0) [''count'' \<mapsto> ''0''] = Inr (0 :: 32 word)"
    by (simp add: declared_count_def property_text_def)
  show ?thesis
    using compute_connectivity_count [OF a, of "\<lambda>n. n"] compute_connectivity_count [OF b, of "\<lambda>n. n"]
    by simp
qed

section \<open>Facts about the normalisation loop\<close>

lemma fin_val_Fin [simp]: "fin_val (Fin r) = r"
  by (simp add: fin_val_def)

lemma isfinite_iff: "isfinite x \<longleftrightarrow> (\<exists>r. x = Fin r)"
  by (cases x) simp_all

lemma all_finite_map: "\<forall>x\<in>set xs. isfinite x \<Longrightarrow> xs = map Fin (map fin_val xs)"
  by (induction xs) (auto simp: isfinite_iff)

lemma flt_zero_iff: "flt (Fin 0) x \<longleftrightarrow> x = PInf \<or> (\<exists>r>0. x = Fin r)"
  by (cases x) simp_all

lemma fgt_hundredth_pos: "fgt w (Fin 0.01) \<Longrightarrow> flt (Fin 0) w"
  by (cases w) (simp_all add: fgt_def)

lemma fadd_pos: "flt (Fin 0) a \<Longrightarrow> flt (Fin 0) b \<Longrightarrow> flt (Fin 0) (fadd a b)"
  by (cases a; cases b) simp_all

lemma foldl_fadd_pos:
  "flt (Fin 0) a \<Longrightarrow> \<forall>w\<in>set ws. flt (Fin 0) w \<Longrightarrow> flt (Fin 0) (foldl fadd a ws)"
  by (induction ws arbitrary: a) (simp_all add: fadd_pos)

lemma fsum_pos:
  "ws \<noteq> [] \<Longrightarrow> \<forall>w\<in>set ws. flt (Fin 0) w \<Longrightarrow> flt (Fin 0) (fsum ws)"
  by (cases ws) (simp_all add: fsum_def foldl_fadd_pos)

lemma fdiv_one_pos_finite: "flt (Fin 0) s \<Longrightarrow> isfinite (fdiv (Fin 1) s)"
  by (cases s) simp_all

lemma set_map_insert:
  "set (map_insert k v m) = (if has_key m k then set m else insert (k, v) (set m))"
  by (simp add: map_insert_def set_insort_key)

lemma has_key_map_insert: "has_key (map_insert k v m) k' \<longleftrightarrow> k' = k \<or> has_key m k'"
  by (auto simp: has_key_def set_map_insert)

lemma gaussian_const1_pos: "0 < gaussian_const1 opts"
  by (simp add: gaussian_const1_def)

lemma normalise_edges_cm:
  "normalise_edges opts positions fixel tdi edges sw = Inr (cm, sw') \<Longrightarrow>
   cm = map (\<lambda>e. (fst e, fpow (connectivity_fraction (snd e) tdi) (cfe_c opts)))
          (filter (\<lambda>e. \<not> flt (connectivity_fraction (snd e) tdi) (Fin (connectivity_threshold opts))) edges)"
proof (induction edges arbitrary: sw cm)
  case Nil
  then show ?case by simp
next
  case (Cons e es)
  obtain j v where e: "e = (j, v)" by (cases e)
  show ?case
  proof (cases "flt (connectivity_fraction v tdi) (Fin (connectivity_threshold opts))")
    case True
    with Cons e show ?thesis by simp
  next
    case False
    with Cons.prems e obtain sw1 cm1 where
      r: "normalise_edges opts positions fixel tdi es sw1 = Inr (cm1, sw')"
      and c: "cm = (j, fpow (connectivity_fraction v tdi) (cfe_c opts)) # cm1"
      by (auto simp: Let_def split: if_splits sum.splits)
    from Cons.IH [OF r] c False e show ?thesis by simp
  qed
qed

lemma normalise_edges_sw:
  "normalise_edges opts positions fixel tdi edges sw = Inr (cm, sw') \<Longrightarrow> e \<in> set sw' \<Longrightarrow>
   e \<in> set sw \<or>
   (do_smoothing opts \<and> fgt (snd e) (Fin 0.01) \<and>
    (\<exists>v. (fst e, v) \<in> set edges \<and>
         snd e = smoothing_weight opts (positions ! fixel) (positions ! fst e) (connectivity_fraction v tdi)))"
proof (induction edges arbitrary: sw cm)
  case Nil
  then show ?case by simp
next
  case (Cons x es)
  obtain j v where x: "x = (j, v)" by (cases x)
  show ?case
  proof (cases "flt (connectivity_fraction v tdi) (Fin (connectivity_threshold opts))")
    case True
    with Cons.prems x have "normalise_edges opts positions fixel tdi es sw = Inr (cm, sw')" by simp
    from Cons.IH [OF this Cons.prems(2)] show ?thesis by auto
  next
    case False
    define w where "w = smoothing_weight opts (positions ! fixel) (positions ! j) (connectivity_fraction v tdi)"
    define sw1 where "sw1 = (if do_smoothing opts then if fgt w (Fin 0.01) then map_insert j w sw else sw else sw)"
    from Cons.prems(1) x False obtain cm1 where
      r: "normalise_edges opts positions fixel tdi es sw1 = Inr (cm1, sw')"
      by (auto simp: Let_def sw1_def w_def split: if_splits sum.splits)
    from Cons.IH [OF r Cons.prems(2)] show ?thesis
    proof
      assume "e \<in> set sw1"
      then show ?thesis
        using x by (auto simp: sw1_def w_def set_map_insert split: if_splits)
    next
      assume "do_smoothing opts \<and> fgt (snd e) (Fin 0.01) \<and>
        (\<exists>v. (fst e, v) \<in> set es \<and>
         snd e = smoothing_weight opts (positions ! fixel) (positions ! fst e) (connectivity_fraction v tdi))"
      then show ?thesis by auto
    qed
  qed
qed

lemma normalise_edges_no_smoothing:
  "\<not> do_smoothing opts \<Longrightarrow> \<exists>cm. normalise_edges opts positions fixel tdi edges sw = Inr (cm, sw)"
proof (induction edges)
  case Nil
  then show ?case by simp
next
  case (Cons x es)
  obtain j v where x: "x = (j, v)" by (cases x)
  from Cons obtain cm where "normalise_edges opts positions fixel tdi es sw = Inr (cm, sw)" by auto
  with Cons.prems x show ?case by (simp add: Let_def)
qed

lemma normalise_fixel_raw:
  "normalise_fixel opts positions fixel tdi edges = Inr (cm, sw) \<Longrightarrow>
   \<exists>raw. raw_smoothing_weights opts positions fixel tdi edges = Inr raw \<and> sw = scale_weights raw"
  by (auto simp: normalise_fixel_def raw_smoothing_weights_def split: sum.splits)

lemma raw_weights_entries:
  assumes "raw_smoothing_weights opts positions fixel tdi edges = Inr raw" "e \<in> set raw"
  shows "e = (fixel, Fin (gaussian_const1 opts)) \<or>
         (do_smoothing opts \<and> fgt (snd e) (Fin 0.01) \<and>
          (\<exists>v. (fst e, v) \<in> set edges \<and>
            snd e = smoothing_weight opts (positions ! fixel) (positions ! fst e) (connectivity_fraction v tdi)))"
proof -
  from assms(1) obtain cm sw where
    r: "normalise_edges opts positions fixel tdi edges [] = Inr (cm, sw)"
    and raw: "raw = map_insert fixel (Fin (gaussian_const1 opts)) sw"
    by (auto simp: raw_smoothing_weights_def split: sum.splits)
  from assms(2) raw have "e = (fixel, Fin (gaussian_const1 opts)) \<or> e \<in> set sw"
    by (auto simp: set_map_insert split: if_splits)
  then show ?thesis using normalise_edges_sw [OF r, of e] by auto
qed

lemma raw_weights_positive:
  assumes "raw_smoothing_weights opts positions fixel tdi edges = Inr raw" "e \<in> set raw"
  shows "flt (Fin 0) (snd e)"
  using raw_weights_entries [OF assms] gaussian_const1_pos [of opts]
  by (auto simp: fgt_hundredth_pos)

lemma raw_weights_self:
  assumes "raw_smoothing_weights opts positions fixel tdi edges = Inr raw"
  shows "has_key raw fixel"
  using assms by (auto simp: raw_smoothing_weights_def has_key_map_insert split: sum.splits)

lemma raw_weights_no_smoothing:
  assumes "raw_smoothing_weights opts positions fixel tdi edges = Inr raw" "\<not> do_smoothing opts"
  shows "raw = [(fixel, Fin 1)]"
proof -
  from normalise_edges_no_smoothing [OF assms(2)] obtain cm where
    "normalise_edges opts positions fixel tdi edges [] = Inr (cm, [])" by blast
  moreover have "gaussian_const1 opts = 1"
    using assms(2) by (simp add: gaussian_const1_def do_smoothing_def)
  ultimately show ?thesis
    using assms(1) by (simp add: raw_smoothing_weights_def map_insert_def has_key_def)
qed

lemma raw_weights_self_value:
  assumes "raw_smoothing_weights opts positions fixel tdi edges = Inr raw" "\<not> has_key edges fixel"
  shows "(fixel, Fin (gaussian_const1 opts)) \<in> set raw"
proof -
  from assms(1) obtain cm sw where
    r: "normalise_edges opts positions fixel tdi edges [] = Inr (cm, sw)"
    and raw: "raw = map_insert fixel (Fin (gaussian_const1 opts)) sw"
    by (auto simp: raw_smoothing_weights_def split: sum.splits)
  have "\<not> has_key sw fixel"
  proof
    assume "has_key sw fixel"
    then obtain w where "(fixel, w) \<in> set sw" by (auto simp: has_key_def)
    from normalise_edges_sw [OF r this] have "\<exists>v. (fixel, v) \<in> set edges" by auto
    with assms(2) show False by (force simp: has_key_def)
  qed
  with raw show ?thesis by (simp add: set_map_insert)
qed

lemma normalise_edges_succeeds:
  "fixel < length positions \<Longrightarrow> \<forall>e\<in>set edges. fst e < length positions \<Longrightarrow>
   \<exists>cm sw'. normalise_edges opts positions fixel tdi edges sw = Inr (cm, sw')"
proof (induction edges arbitrary: sw)
  case Nil
  then show ?case by simp
next
  case (Cons x es)
  obtain j v where x: "x = (j, v)" by (cases x)
  have rec: "\<exists>cm sw'. normalise_edges opts positions fixel tdi es s = Inr (cm, sw')" for s
    using Cons by simp
  show ?case
  proof (cases "flt (connectivity_fraction v tdi) (Fin (connectivity_threshold opts))")
    case True
    with rec [of sw] x show ?thesis by simp
  next
    case False
    define sw1 where "sw1 = (if do_smoothing opts
               then let w = smoothing_weight opts (positions ! fixel) (positions ! j) (connectivity_fraction v tdi)
                    in if fgt w (Fin 0.01) then map_insert j w sw else sw
               else sw)"
    from rec [of sw1] obtain cm sw' where
      "normalise_edges opts positions fixel tdi es sw1 = Inr (cm, sw')" by blast
    with False x Cons.prems show ?thesis
      by (simp add: Let_def sw1_def)
  qed
qed


lemma raw_weights_succeed:
  "fixel < length positions \<Longrightarrow> \<forall>e\<in>set edges. fst e < length positions \<Longrightarrow>
   \<exists>raw. raw_smoothing_weights opts positions fixel tdi edges = Inr raw"
  using normalise_edges_succeeds [of fixel positions edges opts tdi "[]"]
  by (auto simp: raw_smoothing_weights_def)


lemma normalise_nth:
  assumes "normalise opts num_fixels positions fixel_TDI connectivity_matrix = Inr (cm, sw)"
  shows "length cm = num_fixels \<and> length sw = num_fixels \<and>
         (\<forall>i<num_fixels. normalise_fixel opts positions i (fixel_TDI ! i) (connectivity_matrix ! i)
                            = Inr (cm ! i, sw ! i))"
proof -
  from assms obtain rs where
    c: "collect (map (normalise_step opts positions fixel_TDI connectivity_matrix) [0..<num_fixels]) = Inr rs"
    and cm: "cm = map fst rs" and sw: "sw = map snd rs"
    by (auto simp: normalise_def split: sum.splits)
  from c have len: "length rs = num_fixels"
    and st: "\<forall>i<num_fixels. normalise_step opts positions fixel_TDI connectivity_matrix i = Inr (rs ! i)"
    by (simp_all add: collect_upt)
  have "\<forall>i<num_fixels. normalise_fixel opts positions i (fixel_TDI ! i) (connectivity_matrix ! i)
                            = Inr (cm ! i, sw ! i)"
  proof (intro allI impI)
    fix i assume i: "i < num_fixels"
    with st have "normalise_step opts positions fixel_TDI connectivity_matrix i = Inr (rs ! i)" by simp
    then show "normalise_fixel opts positions i (fixel_TDI ! i) (connectivity_matrix ! i) = Inr (cm ! i, sw ! i)"
      using i len by (simp add: normalise_step_def cm sw split: if_splits)
  qed
  with len show ?thesis by (simp add: cm sw)
qed

lemma two_fixels_normalised:
  "normalise \<lparr>smooth_fwhm = 0, connectivity_threshold = 1 / 2, cfe_c = 1\<rparr> 2 [(0, 0, 0), (1, 0, 0)] [2, 2]
     [[(1, Fin 1)], [(0, Fin 1)]]
   = Inr ([[(0, Fin 1), (1, Fin (1 / 2))], [(0, Fin (1 / 2)), (1, Fin 1)]],
          [[(0, Fin 1)], [(1, Fin 1)]])"
  by (simp add: normalise_def normalise_step_def normalise_fixel_def upt_rec
      do_smoothing_def smooth_std_dev_def connectivity_fraction_def map_insert_def has_key_def
      gaussian_const1_def scale_weights_def norm_factor_def weights_sum_def fsum_def)

lemma two_fixels_built:
  "built_row 0 2 [(1, Fin 1)] \<and> built_row 1 2 [(0, Fin 1)]"
  by (simp add: built_row_def has_key_def)



section \<open>The sum of the smoothing weights is positive\<close>

text \<open>
  C10. For every fixel the sum by which the smoothing weights are divided is greater
  than 0, so that its reciprocal is a finite number: the weights collected in the loop
  are all greater than 0.01, and the weight of the fixel itself is inserted before the
  sum is taken. That weight is 1 when smoothing is off and \<^verbatim>\<open>1 / (smooth_std_dev * sqrt (2 * pi))\<close>, a positive
  number, when it is on; it is the weight stored for the fixel whenever the fixel is
  not among its own neighbours.
\<close>
theorem smoothing_sum_positive:
  assumes "raw_smoothing_weights opts positions fixel tdi edges = Inr raw"
  shows "flt (Fin 0) (weights_sum raw) \<and> isfinite (norm_factor raw) \<and> has_key raw fixel \<and>
         (\<not> do_smoothing opts \<longrightarrow> raw = [(fixel, Fin 1)]) \<and>
         (do_smoothing opts \<longrightarrow>
            gaussian_const1 opts = 1 / (smooth_std_dev opts * sqrt (2 * pi)) \<and>
            0 < gaussian_const1 opts) \<and>
         (\<not> has_key edges fixel \<longrightarrow> (fixel, Fin (gaussian_const1 opts)) \<in> set raw)"
proof -
  have ne: "map snd raw \<noteq> []"
    using raw_weights_self [OF assms] by (auto simp: has_key_def)
  have pos: "\<forall>w\<in>set (map snd raw). flt (Fin 0) w"
    using raw_weights_positive [OF assms] by auto
  have s: "flt (Fin 0) (weights_sum raw)"
    unfolding weights_sum_def by (rule fsum_pos [OF ne pos])
  have n: "isfinite (norm_factor raw)"
    unfolding norm_factor_def by (rule fdiv_one_pos_finite [OF s])
  have g: "do_smoothing opts \<longrightarrow>
            gaussian_const1 opts = 1 / (smooth_std_dev opts * sqrt (2 * pi)) \<and>
            0 < gaussian_const1 opts"
    using gaussian_const1_pos [of opts] by (simp add: gaussian_const1_def do_smoothing_def)
  show ?thesis
    using s n g raw_weights_self [OF assms] raw_weights_no_smoothing [OF assms]
      raw_weights_self_value [OF assms] by blast
qed

text \<open>C10 on two fixels that share one streamline, with the default options.\<close>
theorem smoothing_sum_positive_witness:
  "\<exists>raw. raw_smoothing_weights \<lparr>smooth_fwhm = 10, connectivity_threshold = 1 / 100, cfe_c = 1 / 2\<rparr>
            [(0, 0, 0), (1, 0, 0)] 0 2 [(1, Fin 1)] = Inr raw \<and>
          flt (Fin 0) (weights_sum raw) \<and> isfinite (norm_factor raw) \<and>
          (0, Fin (gaussian_const1 \<lparr>smooth_fwhm = 10, connectivity_threshold = 1 / 100, cfe_c = 1 / 2\<rparr>)) \<in> set raw"
proof -
  have "\<exists>raw. raw_smoothing_weights \<lparr>smooth_fwhm = 10, connectivity_threshold = 1 / 100, cfe_c = 1 / 2\<rparr>
            [(0, 0, 0), (1, 0, 0)] 0 2 [(1, Fin 1)] = Inr raw"
    by (rule raw_weights_succeed) auto
  then obtain raw where r: "raw_smoothing_weights \<lparr>smooth_fwhm = 10, connectivity_threshold = 1 / 100, cfe_c = 1 / 2\<rparr>
            [(0, 0, 0), (1, 0, 0)] 0 2 [(1, Fin 1)] = Inr raw" by blast
  have "\<not> has_key [(1, Fin 1)] 0" by (simp add: has_key_def)
  with smoothing_sum_positive [OF r] r show ?thesis by blast
qed


section \<open>The smoothing weights add up to 1\<close>

lemma connectivity_fraction_Fin:
  "tdi \<noteq> 0 \<Longrightarrow> connectivity_fraction (Fin c) tdi = Fin (c / real (unat tdi))"
  by (simp add: connectivity_fraction_def unsigned_eq_0_iff)










section \<open>The edges after normalisation\<close>

lemma normalise_fixel_cm:
  assumes "normalise_fixel opts positions fixel tdi edges = Inr (cm, sw)"
  shows "cm = map_insert fixel (Fin 1)
           (map (\<lambda>e. (fst e, fpow (connectivity_fraction (snd e) tdi) (cfe_c opts)))
              (filter (\<lambda>e. \<not> flt (connectivity_fraction (snd e) tdi) (Fin (connectivity_threshold opts))) edges))"
  using assms normalise_edges_cm
  by (auto simp: normalise_fixel_def split: sum.splits)

lemma normalise_fixel_edges:
  assumes n: "normalise_fixel opts positions fixel tdi edges = Inr (cm, sw)"
    and b: "built_row fixel tdi edges"
  shows "(\<forall>v. (fixel, v) \<in> set cm \<longleftrightarrow> v = Fin 1) \<and>
         (\<forall>e\<in>set cm. fst e \<noteq> fixel \<longrightarrow>
            (\<exists>c. (fst e, Fin c) \<in> set edges \<and>
                 connectivity_threshold opts \<le> c / real (unat tdi) \<and> c / real (unat tdi) \<le> 1 \<and>
                 snd e = fpow (Fin (c / real (unat tdi))) (cfe_c opts))) \<and>
         (\<forall>j c. (j, Fin c) \<in> set edges \<longrightarrow>
            (has_key cm j \<longleftrightarrow> connectivity_threshold opts \<le> c / real (unat tdi)))"
proof -
  define keep where "keep = filter (\<lambda>e. \<not> flt (connectivity_fraction (snd e) tdi) (Fin (connectivity_threshold opts))) edges"
  define cm0 where "cm0 = map (\<lambda>e. (fst e, fpow (connectivity_fraction (snd e) tdi) (cfe_c opts))) keep"
  have cm: "cm = map_insert fixel (Fin 1) cm0"
    using normalise_fixel_cm [OF n] by (simp add: cm0_def keep_def)
  have nokey: "\<not> has_key cm0 fixel"
    using b by (force simp: built_row_def has_key_def cm0_def keep_def)
  then have setcm: "set cm = insert (fixel, Fin 1) (set cm0)"
    by (simp add: cm set_map_insert)
  have frac: "connectivity_fraction (Fin c) tdi = Fin (c / real (unat tdi)) \<and> 0 \<le> c \<and> c \<le> real (unat tdi) \<and> 0 < real (unat tdi)"
    if "(j, Fin c) \<in> set edges" for j c
  proof -
    from that b have t: "tdi \<noteq> 0" by (auto simp: built_row_def)
    then have "unat tdi \<noteq> 0" by (simp add: unsigned_eq_0_iff)
    then have "0 < real (unat tdi)" by (simp del: of_nat_unat)
    moreover from that b have "0 \<le> c \<and> c \<le> real (unat tdi)" by (force simp: built_row_def)
    ultimately show ?thesis using t by (simp add: connectivity_fraction_Fin)
  qed
  have a1: "\<forall>v. (fixel, v) \<in> set cm \<longleftrightarrow> v = Fin 1"
    using nokey by (force simp: setcm has_key_def)
  have a2: "\<forall>e\<in>set cm. fst e \<noteq> fixel \<longrightarrow>
            (\<exists>c. (fst e, Fin c) \<in> set edges \<and>
                 connectivity_threshold opts \<le> c / real (unat tdi) \<and> c / real (unat tdi) \<le> 1 \<and>
                 snd e = fpow (Fin (c / real (unat tdi))) (cfe_c opts))"
  proof (intro ballI impI)
    fix e assume e: "e \<in> set cm" and ne: "fst e \<noteq> fixel"
    with setcm have "e \<in> set cm0" by auto
    then obtain x where x: "x \<in> set edges"
      and k: "\<not> flt (connectivity_fraction (snd x) tdi) (Fin (connectivity_threshold opts))"
      and ex: "e = (fst x, fpow (connectivity_fraction (snd x) tdi) (cfe_c opts))"
      by (auto simp: cm0_def keep_def)
    from x b obtain c where c: "snd x = Fin c" by (auto simp: built_row_def)
    then have mem: "(fst x, Fin c) \<in> set edges" using x by (metis prod.collapse)
    from frac [OF mem] k c ex mem show
      "\<exists>c. (fst e, Fin c) \<in> set edges \<and>
                 connectivity_threshold opts \<le> c / real (unat tdi) \<and> c / real (unat tdi) \<le> 1 \<and>
                 snd e = fpow (Fin (c / real (unat tdi))) (cfe_c opts)"
      by (intro exI [of _ c]) (auto simp: divide_le_eq)
  qed
  have a3: "\<forall>j c. (j, Fin c) \<in> set edges \<longrightarrow>
            (has_key cm j \<longleftrightarrow> connectivity_threshold opts \<le> c / real (unat tdi))"
  proof (intro allI impI)
    fix j c assume mem: "(j, Fin c) \<in> set edges"
    from b have d: "distinct (map fst edges)" by (simp add: built_row_def)
    from mem b have jn: "j \<noteq> fixel" by (force simp: built_row_def has_key_def)
    have uniq: "v = Fin c" if "(j, v) \<in> set edges" for v
      using d mem that by (meson eq_key_imp_eq_value)
    have "has_key cm j \<longleftrightarrow> has_key cm0 j"
      using jn by (simp add: cm has_key_map_insert)
    also have "\<dots> \<longleftrightarrow> (\<exists>x\<in>set keep. fst x = j)"
      by (force simp: has_key_def cm0_def)
    also have "\<dots> \<longleftrightarrow> \<not> flt (connectivity_fraction (Fin c) tdi) (Fin (connectivity_threshold opts))"
    proof
      assume "\<exists>x\<in>set keep. fst x = j"
      then obtain x where "x \<in> set edges" "fst x = j"
        "\<not> flt (connectivity_fraction (snd x) tdi) (Fin (connectivity_threshold opts))"
        by (auto simp: keep_def)
      moreover then have "snd x = Fin c" using uniq [of "snd x"] by (metis prod.collapse)
      ultimately show "\<not> flt (connectivity_fraction (Fin c) tdi) (Fin (connectivity_threshold opts))"
        by simp
    next
      assume "\<not> flt (connectivity_fraction (Fin c) tdi) (Fin (connectivity_threshold opts))"
      with mem show "\<exists>x\<in>set keep. fst x = j" by (force simp: keep_def)
    qed
    also have "\<dots> \<longleftrightarrow> connectivity_threshold opts \<le> c / real (unat tdi)"
      using frac [OF mem] by auto
    finally show "has_key cm j \<longleftrightarrow> connectivity_threshold opts \<le> c / real (unat tdi)" .
  qed
  from a1 a2 a3 show ?thesis by blast
qed

text \<open>
  C4, as the code has it. On the rows that the graph builder hands over, after the
  normalisation phase and for every fixel \<open>i\<close>: the entry of \<open>i\<close> itself is 1 whatever the
  exponent; every other entry that stays holds \<open>(count / TDI[i])\<close> to the power \<open>C\<close> with
  the fraction between the threshold and 1, both bounds included; and an edge stays
  exactly when its fraction is not below the threshold.
\<close>
theorem normalised_edges:
  assumes "normalise opts num_fixels positions fixel_TDI connectivity_matrix = Inr (cm, sw)"
    and "\<forall>i<num_fixels. built_row i (fixel_TDI ! i) (connectivity_matrix ! i)"
  shows "\<forall>i<num_fixels.
           (\<forall>v. (i, v) \<in> set (cm ! i) \<longleftrightarrow> v = Fin 1) \<and>
           (\<forall>e\<in>set (cm ! i). fst e \<noteq> i \<longrightarrow>
              (\<exists>c. (fst e, Fin c) \<in> set (connectivity_matrix ! i) \<and>
                   connectivity_threshold opts \<le> c / real (unat (fixel_TDI ! i)) \<and>
                   c / real (unat (fixel_TDI ! i)) \<le> 1 \<and>
                   snd e = fpow (Fin (c / real (unat (fixel_TDI ! i)))) (cfe_c opts))) \<and>
           (\<forall>j c. (j, Fin c) \<in> set (connectivity_matrix ! i) \<longrightarrow>
              (has_key (cm ! i) j \<longleftrightarrow> connectivity_threshold opts \<le> c / real (unat (fixel_TDI ! i))))"
proof (intro allI impI)
  fix i assume i: "i < num_fixels"
  from normalise_nth [OF assms(1)] i have
    "normalise_fixel opts positions i (fixel_TDI ! i) (connectivity_matrix ! i) = Inr (cm ! i, sw ! i)"
    by simp
  moreover from assms(2) i have "built_row i (fixel_TDI ! i) (connectivity_matrix ! i)" by simp
  ultimately show
    "(\<forall>v. (i, v) \<in> set (cm ! i) \<longleftrightarrow> v = Fin 1) \<and>
           (\<forall>e\<in>set (cm ! i). fst e \<noteq> i \<longrightarrow>
              (\<exists>c. (fst e, Fin c) \<in> set (connectivity_matrix ! i) \<and>
                   connectivity_threshold opts \<le> c / real (unat (fixel_TDI ! i)) \<and>
                   c / real (unat (fixel_TDI ! i)) \<le> 1 \<and>
                   snd e = fpow (Fin (c / real (unat (fixel_TDI ! i)))) (cfe_c opts))) \<and>
           (\<forall>j c. (j, Fin c) \<in> set (connectivity_matrix ! i) \<longrightarrow>
              (has_key (cm ! i) j \<longleftrightarrow> connectivity_threshold opts \<le> c / real (unat (fixel_TDI ! i))))"
    by (rule normalise_fixel_edges)
qed

text \<open>C4 on the same two fixels.\<close>
theorem normalised_edges_witness:
  "normalise \<lparr>smooth_fwhm = 0, connectivity_threshold = 1 / 2, cfe_c = 1\<rparr> 2 [(0, 0, 0), (1, 0, 0)] [2, 2]
     [[(1, Fin 1)], [(0, Fin 1)]]
   = Inr ([[(0, Fin 1), (1, Fin (1 / 2))], [(0, Fin (1 / 2)), (1, Fin 1)]],
          [[(0, Fin 1)], [(1, Fin 1)]]) \<and>
   built_row 0 2 [(1, Fin 1)] \<and> built_row 1 2 [(0, Fin 1)] \<and>
   (0, Fin 1) \<in> set ([[(0 :: nat, Fin 1), (1, Fin (1 / 2))], [(0, Fin (1 / 2)), (1, Fin 1)]] ! 0)"
proof -
  have b: "\<forall>i<2. built_row i ([2, 2] ! i) ([[(1, Fin 1)], [(0, Fin 1)]] ! i)"
    using two_fixels_built by (auto simp: less_2_cases_iff)
  have z: "(0::nat) < 2" by simp
  note t = normalised_edges [OF two_fixels_normalised b, rule_format, OF z]
  from t [THEN conjunct1, rule_format, of "Fin 1"]
  have "(0, Fin 1) \<in> set ([[(0 :: nat, Fin 1), (1, Fin (1 / 2))], [(0, Fin (1 / 2)), (1, Fin 1)]] ! 0)"
    by (simp only: refl simp_thms)
  with two_fixels_normalised two_fixels_built show ?thesis by blast
qed

text \<open>
  C4 as stated fails at the lower bound: with the threshold 1/2, two fixels of track
  density 2 and one shared streamline, the edge has the fraction 1/2, which is not
  strictly greater than the threshold, and it stays.
\<close>
theorem normalised_edges_counterexample:
  "normalise \<lparr>smooth_fwhm = 0, connectivity_threshold = 1 / 2, cfe_c = 1\<rparr> 2 [(0, 0, 0), (1, 0, 0)] [2, 2]
     [[(1, Fin 1)], [(0, Fin 1)]]
   = Inr ([[(0, Fin 1), (1, Fin (1 / 2))], [(0, Fin (1 / 2)), (1, Fin 1)]],
          [[(0, Fin 1)], [(1, Fin 1)]]) \<and>
   connectivity_fraction (Fin 1) 2 = Fin (1 / 2) \<and>
   \<not> connectivity_threshold \<lparr>smooth_fwhm = 0, connectivity_threshold = 1 / 2, cfe_c = 1\<rparr> < 1 / 2"
proof -
  have "connectivity_fraction (Fin 1) 2 = Fin (1 / 2)"
    by (simp add: connectivity_fraction_def)
  moreover have "\<not> connectivity_threshold \<lparr>smooth_fwhm = 0, connectivity_threshold = 1 / 2, cfe_c = 1\<rparr> < 1 / 2"
    by simp
  ultimately show ?thesis using two_fixels_normalised by blast
qed


section \<open>The smoother\<close>

lemma smooth_accumulate_sums:
  "\<forall>e\<in>set ws. fst e < length data \<Longrightarrow>
   smooth_accumulate data ws v s =
     Inr (foldl fadd v (map (\<lambda>e. fmul (data ! fst e) (snd e)) (finite_neighbours data ws)),
          foldl fadd s (map snd (finite_neighbours data ws)))"
proof (induction ws arbitrary: v s)
  case Nil
  then show ?case by (simp add: finite_neighbours_def)
next
  case (Cons x ws)
  obtain j w where x: "x = (j, w)" by (cases x)
  with Cons show ?case by (simp add: finite_neighbours_def)
qed

lemma smooth_fixel_code:
  assumes "fixel < length data" "fixel < length smoothing_weights"
    and "\<forall>e\<in>set (smoothing_weights ! fixel). fst e < length data"
  shows "smooth_fixel data smoothing_weights fixel =
     Inr (if isfinite (data ! fixel) \<and>
             ftruthy (fsum (map snd (finite_neighbours data (smoothing_weights ! fixel))))
          then spec_smooth data (smoothing_weights ! fixel) else NaN)"
proof -
  have "finite_neighbours data (smoothing_weights ! fixel) \<noteq> []"
    if "ftruthy (fsum (map snd (finite_neighbours data (smoothing_weights ! fixel))))"
    using that by (auto simp: ftruthy_def fsum_def)
  then show ?thesis
    using assms by (auto simp: smooth_fixel_def smooth_accumulate_sums spec_smooth_def fsum_def)
qed

lemma smooth_fixel_finite:
  assumes "fixel < length data" "fixel < length smoothing_weights"
    and in_range: "\<forall>e\<in>set (smoothing_weights ! fixel). fst e < length data"
    and pos: "\<forall>e\<in>set (smoothing_weights ! fixel). \<exists>w>0. snd e = Fin w"
    and self: "has_key (smoothing_weights ! fixel) fixel"
    and fin: "isfinite (data ! fixel)"
  shows "\<exists>r. smooth_fixel data smoothing_weights fixel = Inr (Fin r)"
proof -
  define fn where "fn = finite_neighbours data (smoothing_weights ! fixel)"
  define ws where "ws = map fin_val (map snd fn)"
  define ps where "ps = map fin_val (map (\<lambda>e. fmul (data ! fst e) (snd e)) fn)"
  have sub: "set fn \<subseteq> set (smoothing_weights ! fixel)" by (auto simp: fn_def finite_neighbours_def)
  have posfn: "\<forall>e\<in>set fn. \<exists>w>0. snd e = Fin w" using pos sub by blast
  have "\<forall>x\<in>set (map snd fn). isfinite x" using posfn by (force simp: isfinite_iff)
  then have w: "map snd fn = map Fin ws" unfolding ws_def by (rule all_finite_map)
  have "\<forall>e\<in>set fn. isfinite (fmul (data ! fst e) (snd e))"
  proof
    fix e assume e: "e \<in> set fn"
    then have "isfinite (data ! fst e)" by (simp add: fn_def finite_neighbours_def)
    moreover from e posfn have "isfinite (snd e)" by (force simp: isfinite_iff)
    ultimately show "isfinite (fmul (data ! fst e) (snd e))" by (auto simp: isfinite_iff)
  qed
  then have "\<forall>x\<in>set (map (\<lambda>e. fmul (data ! fst e) (snd e)) fn). isfinite x" by auto
  then have p: "map (\<lambda>e. fmul (data ! fst e) (snd e)) fn = map Fin ps"
    unfolding ps_def by (rule all_finite_map)
  from self obtain w0 where w0: "(fixel, w0) \<in> set (smoothing_weights ! fixel)"
    by (auto simp: has_key_def)
  with fin have mem: "(fixel, w0) \<in> set fn" by (simp add: fn_def finite_neighbours_def)
  then have ne: "ws \<noteq> []" by (auto simp: ws_def)
  have "\<forall>x\<in>set ws. 0 < x" using posfn by (force simp: ws_def)
  then have S: "0 < sum_list ws"
    using ne by (cases ws) (auto intro: add_pos_nonneg sum_list_nonneg less_imp_le)
  have s: "fsum (map snd fn) = Fin (sum_list ws)" by (simp only: w fsum_Fin)
  have v: "fsum (map (\<lambda>e. fmul (data ! fst e) (snd e)) fn) = Fin (sum_list ps)"
    by (simp only: p fsum_Fin)
  have "fn \<noteq> []" using mem by auto
  then have "spec_smooth data (smoothing_weights ! fixel) = Fin (sum_list ps / sum_list ws)"
    using S s v by (simp add: spec_smooth_def fn_def [symmetric])
  moreover have "ftruthy (fsum (map snd fn))" using S s by (simp add: ftruthy_def)
  ultimately show ?thesis
    using smooth_fixel_code [OF assms(1,2) in_range] fin by (simp add: fn_def)
qed

text \<open>
  C3, as the code has it. The smoothed value of a fixel whose own value is not finite
  is NaN, whatever its neighbours hold. For a fixel with a finite value it is the
  weighted mean over the neighbours with a finite value, as the specification words it,
  unless the weights of those neighbours add up to 0, where it is NaN. With weights that
  are greater than 0 and a weight for the fixel itself, the smoothed value is finite
  exactly when the value of the fixel is.
\<close>
theorem smooth_fixel_value:
  assumes "fixel < length data" "fixel < length smoothing_weights"
    and "\<forall>e\<in>set (smoothing_weights ! fixel). fst e < length data"
  shows "smooth_fixel data smoothing_weights fixel =
           Inr (if isfinite (data ! fixel) \<and>
                   ftruthy (fsum (map snd (finite_neighbours data (smoothing_weights ! fixel))))
                then spec_smooth data (smoothing_weights ! fixel) else NaN) \<and>
         ((\<forall>e\<in>set (smoothing_weights ! fixel). \<exists>w>0. snd e = Fin w) \<and>
          has_key (smoothing_weights ! fixel) fixel \<longrightarrow>
            (\<exists>r. smooth_fixel data smoothing_weights fixel = Inr r \<and>
                 (isfinite r \<longleftrightarrow> isfinite (data ! fixel))))"
proof -
  have a: "smooth_fixel data smoothing_weights fixel =
           Inr (if isfinite (data ! fixel) \<and>
                   ftruthy (fsum (map snd (finite_neighbours data (smoothing_weights ! fixel))))
                then spec_smooth data (smoothing_weights ! fixel) else NaN)"
    by (rule smooth_fixel_code [OF assms])
  have b: "\<exists>r. smooth_fixel data smoothing_weights fixel = Inr r \<and>
                 (isfinite r \<longleftrightarrow> isfinite (data ! fixel))"
    if "\<forall>e\<in>set (smoothing_weights ! fixel). \<exists>w>0. snd e = Fin w"
      and "has_key (smoothing_weights ! fixel) fixel"
  proof (cases "isfinite (data ! fixel)")
    case True
    from smooth_fixel_finite [OF assms that True] True show ?thesis by auto
  next
    case False
    then show ?thesis using a by simp
  qed
  from a b show ?thesis by blast
qed

text \<open>C3 on three fixels, the second of which has no finite value.\<close>
theorem smooth_fixel_value_witness:
  "smooth_fixel [Fin 2, NaN, Fin 4]
     [[(0, Fin (1 / 2)), (1, Fin (1 / 4)), (2, Fin (1 / 4))], [(1, Fin 1)], [(2, Fin 1)]] 0
   = Inr (Fin (8 / 3))"
  using smooth_fixel_value [of 0 "[Fin 2, NaN, Fin 4]"
      "[[(0, Fin (1 / 2)), (1, Fin (1 / 4)), (2, Fin (1 / 4))], [(1, Fin 1)], [(2, Fin 1)]]"]
  by (simp add: spec_smooth_def finite_neighbours_def fsum_def ftruthy_def)

text \<open>
  C3 as stated fails: fixel 0 has no finite value and a neighbour with the finite value
  1; the code yields NaN where the weighted mean over the finite neighbours is 1.
\<close>
theorem smooth_fixel_spec_counterexample:
  "smooth_fixel [NaN, Fin 1] [[(0, Fin (1 / 2)), (1, Fin (1 / 2))], [(1, Fin 1)]] 0 = Inr NaN \<and>
   spec_smooth [NaN, Fin 1] [(0, Fin (1 / 2)), (1, Fin (1 / 2))] = Fin 1 \<and>
   isfinite ([NaN, Fin 1] ! 1)"
  by (simp add: smooth_fixel_def spec_smooth_def finite_neighbours_def fsum_def)


section \<open>Smoothing switched off\<close>

lemma scale_single: "scale_weights [(i, Fin 1)] = [(i, Fin 1)]"
  by (simp add: scale_weights_def norm_factor_def weights_sum_def fsum_def)

lemma smooth_fixel_single:
  assumes "i < length data" "i < length sw" "sw ! i = [(i, Fin 1)]"
  shows "smooth_fixel data sw i = Inr (if isfinite (data ! i) then data ! i else NaN)"
  using assms by (auto simp: smooth_fixel_def ftruthy_def isfinite_iff)

text \<open>
  C6. With a smoothing FWHM of 0 the smoothing weights of every fixel are the single
  entry of the fixel itself with the weight 1, and smoothing a subject returns the
  value it was given at every fixel where that value is finite.
\<close>
theorem no_smoothing_identity:
  assumes "smooth_fwhm opts = 0"
    and "normalise opts num_fixels positions fixel_TDI connectivity_matrix = Inr (cm, sw)"
    and "length data = num_fixels"
  shows "(\<forall>i<num_fixels. sw ! i = [(i, Fin 1)]) \<and>
         (\<exists>out. smooth_subject num_fixels data sw = Inr out \<and> length out = num_fixels \<and>
                (\<forall>i<num_fixels. isfinite (data ! i) \<longrightarrow> out ! i = data ! i))"
proof -
  have off: "\<not> do_smoothing opts"
    using assms(1) by (simp add: do_smoothing_def smooth_std_dev_def)
  note n = normalise_nth [OF assms(2)]
  have w: "\<forall>i<num_fixels. sw ! i = [(i, Fin 1)]"
  proof (intro allI impI)
    fix i assume "i < num_fixels"
    with n have "normalise_fixel opts positions i (fixel_TDI ! i) (connectivity_matrix ! i) = Inr (cm ! i, sw ! i)"
      by simp
    from normalise_fixel_raw [OF this] obtain raw where
      raw: "raw_smoothing_weights opts positions i (fixel_TDI ! i) (connectivity_matrix ! i) = Inr raw"
      and s: "sw ! i = scale_weights raw" by blast
    from raw_weights_no_smoothing [OF raw off] s show "sw ! i = [(i, Fin 1)]"
      by (simp add: scale_single)
  qed
  define out where "out = map (\<lambda>i. if isfinite (data ! i) then data ! i else NaN) [0..<num_fixels]"
  have "\<forall>i<num_fixels. smooth_fixel data sw i = Inr (out ! i)"
    using w n assms(3) by (simp add: out_def smooth_fixel_single)
  then have "smooth_subject num_fixels data sw = Inr out"
    by (simp add: smooth_subject_def collect_upt out_def)
  moreover have "length out = num_fixels" by (simp add: out_def)
  moreover have "\<forall>i<num_fixels. isfinite (data ! i) \<longrightarrow> out ! i = data ! i"
    by (simp add: out_def)
  ultimately show ?thesis using w by blast
qed

text \<open>C6 on two fixels, one with a finite value.\<close>
theorem no_smoothing_identity_witness:
  "smooth_fwhm \<lparr>smooth_fwhm = 0, connectivity_threshold = 1 / 2, cfe_c = 1\<rparr> = 0 \<and>
   length [Fin 3, NaN] = 2 \<and>
   (\<exists>out. smooth_subject 2 [Fin 3, NaN] [[(0, Fin 1)], [(1, Fin 1)]] = Inr out \<and> out ! 0 = Fin 3)"
proof -
  have a: "smooth_fwhm \<lparr>smooth_fwhm = 0, connectivity_threshold = 1 / 2, cfe_c = 1\<rparr> = 0" by simp
  have l: "length [Fin 3, NaN] = 2" by simp
  from no_smoothing_identity [OF a two_fixels_normalised l]
  obtain out where "smooth_subject 2 [Fin 3, NaN] [[(0, Fin 1)], [(1, Fin 1)]] = Inr out"
    and "\<forall>i<2. isfinite ([Fin 3, NaN] ! i) \<longrightarrow> out ! i = [Fin 3, NaN] ! i" by blast
  then have "smooth_subject 2 [Fin 3, NaN] [[(0, Fin 1)], [(1, Fin 1)]] = Inr out \<and> out ! 0 = Fin 3"
    by simp
  with a l show ?thesis by blast
qed


section \<open>The t-test beyond one batch\<close>

lemma fold_err_only:
  assumes "\<And>n s e. f n s = Inl e \<Longrightarrow> e = OutOfBounds"
  shows "fold_err f ns s = Inl e \<Longrightarrow> e = OutOfBounds"
proof (induction ns arbitrary: s)
  case Nil
  then show ?case by simp
next
  case (Cons n ns)
  then show ?case using assms by (auto split: sum.splits)
qed

lemma mat_mult_only: "mat_mult a b = Inl e \<Longrightarrow> e = OutOfBounds"
  by (auto simp: mat_mult_def split: if_splits)

lemma mat_sub_only: "mat_sub a b = Inl e \<Longrightarrow> e = OutOfBounds"
  by (auto simp: mat_sub_def split: if_splits)

lemma mat_block_only: "mat_block m i j nr nc = Inl e \<Longrightarrow> e = OutOfBounds"
  by (auto simp: mat_block_def split: if_splits)

lemma ttest_only: "ttest d p m sc = Inl e \<Longrightarrow> e = OutOfBounds"
  by (auto simp: ttest_def split: sum.splits dest: mat_mult_only mat_sub_only)

lemma store_tvalue_only: "store_tvalue tv i n S = Inl e \<Longrightarrow> e = OutOfBounds"
  by (auto simp: store_tvalue_def Let_def split: prod.splits if_splits)

lemma scale_contrasts_step_only:
  "scale_contrasts_step XtX contrasts dof n scaled = Inl e \<Longrightarrow> e = OutOfBounds"
  by (auto simp: scale_contrasts_step_def Let_def split: if_splits)

lemma permute_step_only: "permute_step X pinvX perm i S = Inl e \<Longrightarrow> e = OutOfBounds"
  by (auto simp: permute_step_def split: if_splits)

lemma batch_loop_unfold:
  "batch_loop t SX pinvSX i S =
     (if i < nrows (glm_y t)
      then case mat_block (glm_y t) i 0 (min (i + GLM_BATCH_SIZE) (nrows (glm_y t))) (ncols (glm_y t)) of
             Inl e \<Rightarrow> Inl e
           | Inr tmp \<Rightarrow>
               (case ttest SX pinvSX tmp (glm_scaled_contrasts t) of
                  Inl e \<Rightarrow> Inl e
                | Inr tvalues \<Rightarrow>
                    (case fold_err (store_tvalue tvalues i) [0..<nrows tvalues] S of
                       Inl e \<Rightarrow> Inl e
                     | Inr S' \<Rightarrow> batch_loop t SX pinvSX (i + GLM_BATCH_SIZE) S'))
      else Inr S)"
  by (rule batch_loop.simps)

lemma batch_loop_step_fail:
  assumes "i < nrows (glm_y t)"
    and rec: "\<And>S'. batch_loop t SX pinvSX (i + GLM_BATCH_SIZE) S' = Inl OutOfBounds"
  shows "batch_loop t SX pinvSX i S = Inl OutOfBounds"
proof (cases "mat_block (glm_y t) i 0 (min (i + GLM_BATCH_SIZE) (nrows (glm_y t))) (ncols (glm_y t))")
  case (Inl e)
  with mat_block_only [OF Inl] assms(1) show ?thesis
    by (simp add: batch_loop_unfold [of t SX pinvSX i S])
next
  case blk: (Inr tmp)
  show ?thesis
  proof (cases "ttest SX pinvSX tmp (glm_scaled_contrasts t)")
    case (Inl e)
    with ttest_only [OF Inl] blk assms(1) show ?thesis
      by (simp add: batch_loop_unfold [of t SX pinvSX i S])
  next
    case tt: (Inr tvalues)
    show ?thesis
    proof (cases "fold_err (store_tvalue tvalues i) [0..<nrows tvalues] S")
      case (Inl e)
      have "e = OutOfBounds"
        by (rule fold_err_only [OF _ Inl]) (rule store_tvalue_only)
      with Inl tt blk assms(1) show ?thesis
        by (simp add: batch_loop_unfold [of t SX pinvSX i S])
    next
      case (Inr S')
      with tt blk assms(1) rec [of S'] show ?thesis
        by (simp add: batch_loop_unfold [of t SX pinvSX i S])
    qed
  qed
qed

lemma batch_loop_overrun:
  "0 < i \<Longrightarrow> i < nrows (glm_y t) \<Longrightarrow> batch_loop t SX pinvSX i S = Inl OutOfBounds"
proof (induction "nrows (glm_y t) - i" arbitrary: i S rule: less_induct)
  case less
  let ?N = "nrows (glm_y t)"
  let ?nr = "min (i + GLM_BATCH_SIZE) ?N"
  show ?case
  proof (cases "i + ?nr \<le> ?N")
    case False
    then have "mat_block (glm_y t) i 0 ?nr (ncols (glm_y t)) = Inl OutOfBounds"
      by (simp add: mat_block_def)
    with less.prems show ?thesis by (simp add: batch_loop_unfold [of t SX pinvSX i S])
  next
    case True
    with less.prems have next_lt: "i + GLM_BATCH_SIZE < ?N" by (auto simp: min_def split: if_splits)
    have pos: "0 < i + GLM_BATCH_SIZE" using less.prems by simp
    have dec: "?N - (i + GLM_BATCH_SIZE) < ?N - i"
      using less.prems by (simp add: GLM_BATCH_SIZE_def)
    have rec: "batch_loop t SX pinvSX (i + GLM_BATCH_SIZE) S' = Inl OutOfBounds" for S'
      by (rule less.hyps [OF dec pos next_lt])
    show ?thesis by (rule batch_loop_step_fail [OF less.prems(2) rec])
  qed
qed

lemma batch_loop_first_overrun:
  assumes "GLM_BATCH_SIZE < nrows (glm_y t)"
  shows "batch_loop t SX pinvSX 0 S = Inl OutOfBounds"
proof -
  have pos: "0 < 0 + GLM_BATCH_SIZE" by (simp add: GLM_BATCH_SIZE_def)
  have lt: "0 + GLM_BATCH_SIZE < nrows (glm_y t)" using assms by simp
  have z: "0 < nrows (glm_y t)" using assms by simp
  have rec: "batch_loop t SX pinvSX (0 + GLM_BATCH_SIZE) S' = Inl OutOfBounds" for S'
    by (rule batch_loop_overrun [OF pos lt])
  show ?thesis by (rule batch_loop_step_fail [OF z rec])
qed

text \<open>
  C2 does not hold beyond one batch. With more than \<open>GLM_BATCH_SIZE\<close> rows of
  measurements the call never returns t-values: from the second batch on, the number of
  rows asked of \<^verbatim>\<open>block\<close> is \<^verbatim>\<open>std::min (i+GLM_BATCH_SIZE, y.rows())\<close>, counted from row \<open>i\<close>,
  and the last batch always reaches past the last row.
\<close>
theorem GLMTTest_call_batch_overrun:
  assumes "GLM_BATCH_SIZE < nrows (glm_y t)"
  shows "GLMTTest_call junk t perm_labelling stats max_stat min_stat = Inl OutOfBounds"
proof (cases "permute_design junk (glm_X t) (glm_pinvX t) perm_labelling")
  case (Inl e)
  have "e = OutOfBounds"
    by (rule fold_err_only [OF _ Inl [unfolded permute_design_def]]) (rule permute_step_only)
  with Inl show ?thesis by (simp add: GLMTTest_call_def)
next
  case (Inr P)
  then show ?thesis
    by (cases P) (simp add: GLMTTest_call_def batch_loop_first_overrun [OF assms])
qed

text \<open>C2 on 1025 fixels.\<close>
theorem GLMTTest_call_batch_overrun_witness:
  "GLM_BATCH_SIZE < nrows (glm_y overrun_test) \<and>
   GLMTTest_call (\<lambda>i j. NaN) overrun_test [0, 1] [] MInf PInf = Inl OutOfBounds"
proof -
  have h: "GLM_BATCH_SIZE < nrows (glm_y overrun_test)"
    by (simp add: GLM_BATCH_SIZE_def overrun_test_def)
  from GLMTTest_call_batch_overrun [OF h] h show ?thesis by blast
qed


section \<open>The t-test within one batch\<close>

lemma permute_fold:
  assumes "set ns \<subseteq> {..<S}" "nrows X = S" "ncols pinvX = S"
  shows "\<exists>A' B'. fold_err (permute_step X pinvX [0..<S]) ns (A, B) = Inr (A', B') \<and>
           nrows A' = nrows A \<and> ncols A' = ncols A \<and> nrows B' = nrows B \<and> ncols B' = ncols B \<and>
           (\<forall>a b. el A' a b = (if a \<in> set ns then el X a b else el A a b)) \<and>
           (\<forall>a b. el B' a b = (if b \<in> set ns then el pinvX a b else el B a b))"
  using assms(1)
proof (induction ns arbitrary: A B)
  case Nil
  then show ?case by simp
next
  case (Cons i ns)
  then have i: "i < S" and sub: "set ns \<subseteq> {..<S}" by auto
  define A1 where "A1 = A\<lparr>el := (\<lambda>a b. if a = i then el X i b else el A a b)\<rparr>"
  define B1 where "B1 = B\<lparr>el := (\<lambda>a b. if b = i then el pinvX a i else el B a b)\<rparr>"
  have nth: "[0..<S] ! i = i" using i by simp
  have step: "permute_step X pinvX [0..<S] i (A, B) = Inr (A1, B1)"
    using i assms(2,3) by (simp add: permute_step_def A1_def B1_def nth cong: if_cong)
  from Cons.IH [OF sub, of A1 B1] obtain A' B' where
    f: "fold_err (permute_step X pinvX [0..<S]) ns (A1, B1) = Inr (A', B')"
    and d: "nrows A' = nrows A1" "ncols A' = ncols A1" "nrows B' = nrows B1" "ncols B' = ncols B1"
    and ea: "\<forall>a b. el A' a b = (if a \<in> set ns then el X a b else el A1 a b)"
    and eb: "\<forall>a b. el B' a b = (if b \<in> set ns then el pinvX a b else el B1 a b)"
    by blast
  have "fold_err (permute_step X pinvX [0..<S]) (i # ns) (A, B) = Inr (A', B')"
    using step f by simp
  moreover have "\<forall>a b. el A' a b = (if a \<in> set (i # ns) then el X a b else el A a b)"
    using ea by (auto simp: A1_def)
  moreover have "\<forall>a b. el B' a b = (if b \<in> set (i # ns) then el pinvX a b else el B a b)"
    using eb by (auto simp: B1_def)
  ultimately show ?case using d by (auto simp: A1_def B1_def)
qed

lemma store_fold:
  assumes "0 < ncols tv" "\<forall>n\<in>set ns. n < nrows tv \<and> i + n < length stats" "distinct ns"
  shows "\<exists>stats' mx' mn'. fold_err (store_tvalue tv i) ns (stats, mx, mn) = Inr (stats', mx', mn') \<and>
           length stats' = length stats \<and>
           (\<forall>m<length stats. stats' ! m =
              (if \<exists>n\<in>set ns. m = i + n then finite_or_zero (el tv (m - i) 0) else stats ! m))"
  using assms(2,3)
proof (induction ns arbitrary: stats mx mn)
  case Nil
  then show ?case by simp
next
  case (Cons n ns)
  define v where "v = finite_or_zero (el tv n 0)"
  define stats1 where "stats1 = stats[i + n := v]"
  have "\<exists>mx1 mn1. store_tvalue tv i n (stats, mx, mn) = Inr (stats1, mx1, mn1)"
    using Cons.prems assms(1)
    by (cases "isfinite (el tv n 0)")
       (simp_all add: store_tvalue_def Let_def stats1_def v_def finite_or_zero_def)
  then obtain mx1 mn1 where
    step: "store_tvalue tv i n (stats, mx, mn) = Inr (stats1, mx1, mn1)" by blast
  have p: "\<forall>n\<in>set ns. n < nrows tv \<and> i + n < length stats1" and dn: "distinct ns"
    using Cons.prems by (simp_all add: stats1_def)
  from Cons.IH [OF p dn, of mx1 mn1] obtain stats' mx' mn' where
    f: "fold_err (store_tvalue tv i) ns (stats1, mx1, mn1) = Inr (stats', mx', mn')"
    and l: "length stats' = length stats1"
    and e: "\<forall>m<length stats1. stats' ! m =
              (if \<exists>k\<in>set ns. m = i + k then finite_or_zero (el tv (m - i) 0) else stats1 ! m)"
    by blast
  have "fold_err (store_tvalue tv i) (n # ns) (stats, mx, mn) = Inr (stats', mx', mn')"
    using step f by simp
  moreover have "length stats' = length stats" using l by (simp add: stats1_def)
  moreover have "\<forall>m<length stats. stats' ! m =
              (if \<exists>k\<in>set (n # ns). m = i + k then finite_or_zero (el tv (m - i) 0) else stats ! m)"
  proof (intro allI impI)
    fix m assume m: "m < length stats"
    then have "stats' ! m = (if \<exists>k\<in>set ns. m = i + k then finite_or_zero (el tv (m - i) 0) else stats1 ! m)"
      using e by (simp add: stats1_def)
    moreover have "stats1 ! m = (if m = i + n then v else stats ! m)"
      using m by (simp add: stats1_def nth_list_update)
    ultimately show "stats' ! m =
              (if \<exists>k\<in>set (n # ns). m = i + k then finite_or_zero (el tv (m - i) 0) else stats ! m)"
      by (auto simp: v_def)
  qed
  ultimately show ?case by blast
qed

lemma permute_identity:
  assumes "ncols pinvX = nrows X"
  shows "\<exists>SX pinvSX. permute_design junk X pinvX [0..<nrows X] = Inr (SX, pinvSX) \<and>
           nrows SX = nrows X \<and> ncols SX = ncols X \<and>
           nrows pinvSX = nrows pinvX \<and> ncols pinvSX = ncols pinvX \<and>
           (\<forall>a<nrows X. \<forall>b. el SX a b = el X a b) \<and>
           (\<forall>a. \<forall>b<nrows X. el pinvSX a b = el pinvX a b)"
proof -
  have sub: "set [0..<nrows X] \<subseteq> {..<nrows X}" by auto
  from permute_fold [OF sub refl assms, of
      "\<lparr>nrows = nrows X, ncols = ncols X, el = junk\<rparr>"
      "\<lparr>nrows = nrows pinvX, ncols = ncols pinvX, el = junk\<rparr>"]
  show ?thesis by (auto simp: permute_design_def)
qed

lemma fsum_map_cong:
  "(\<And>x. x < n \<Longrightarrow> f x = g x) \<Longrightarrow> fsum (map f [0..<n]) = fsum (map g [0..<n])"
  by (rule arg_cong [of _ _ fsum]) simp

lemma ttest_direct:
  assumes ws: "well_sized t"
    and SX: "nrows SX = nrows (glm_X t)" "ncols SX = ncols (glm_X t)"
      "\<forall>a<nrows (glm_X t). \<forall>b. el SX a b = el (glm_X t) a b"
    and PX: "nrows pinvSX = nrows (glm_pinvX t)" "ncols pinvSX = ncols (glm_pinvX t)"
      "\<forall>a. \<forall>b<nrows (glm_X t). el pinvSX a b = el (glm_pinvX t) a b"
    and tmp: "nrows tmp = nrows (glm_y t)" "ncols tmp = ncols (glm_y t)"
      "\<forall>n<nrows (glm_y t). \<forall>s. el tmp n s = el (glm_y t) n s"
  shows "\<exists>tv. ttest (mat_transpose SX) (mat_transpose pinvSX) tmp (glm_scaled_contrasts t) = Inr tv \<and>
           nrows tv = nrows (glm_y t) \<and> 0 < ncols tv \<and>
           (\<forall>n<nrows (glm_y t). el tv n 0 = direct_tvalue t n)"
proof -
  let ?S = "ncols (glm_y t)" and ?P = "ncols (glm_X t)" and ?N = "nrows (glm_y t)"
  from ws have d: "nrows (glm_X t) = ?S" "nrows (glm_pinvX t) = ?P" "ncols (glm_pinvX t) = ?S"
    "nrows (glm_scaled_contrasts t) = ?P" "0 < ncols (glm_scaled_contrasts t)"
    by (simp_all add: well_sized_def)
  define betas where "betas = \<lparr>nrows = ?N, ncols = ?P,
      el = (\<lambda>i j. fsum (map (\<lambda>k. fmul (el tmp i k) (el (mat_transpose pinvSX) k j)) [0..<?S]))\<rparr>"
  have b: "mat_mult tmp (mat_transpose pinvSX) = Inr betas"
    using tmp PX d by (simp add: mat_mult_def mat_transpose_def betas_def)
  have beta: "el betas n k = direct_beta t n k" if "n < ?N" for n k
  proof -
    have "el betas n k = fsum (map (\<lambda>s. fmul (el tmp n s) (el pinvSX k s)) [0..<?S])"
      by (simp add: betas_def mat_transpose_def)
    also have "\<dots> = fsum (map (\<lambda>s. fmul (el (glm_y t) n s) (el (glm_pinvX t) k s)) [0..<?S])"
      by (rule fsum_map_cong) (use that tmp(3) PX(3) d(1) in simp)
    finally show ?thesis by (simp add: direct_beta_def)
  qed
  define fitted where "fitted = \<lparr>nrows = ?N, ncols = ?S,
      el = (\<lambda>i j. fsum (map (\<lambda>k. fmul (el betas i k) (el (mat_transpose SX) k j)) [0..<?P]))\<rparr>"
  have f: "mat_mult betas (mat_transpose SX) = Inr fitted"
    using SX d by (simp add: mat_mult_def mat_transpose_def betas_def fitted_def)
  define residuals where "residuals = \<lparr>nrows = ?N, ncols = ?S,
      el = (\<lambda>i j. fsub (el tmp i j) (el fitted i j))\<rparr>"
  have r: "mat_sub tmp fitted = Inr residuals"
    using tmp by (simp add: mat_sub_def fitted_def residuals_def)
  have res: "el residuals n s = direct_residual t n s" if "n < ?N" "s < ?S" for n s
  proof -
    have "el fitted n s = fsum (map (\<lambda>k. fmul (el betas n k) (el SX s k)) [0..<?P])"
      by (simp add: fitted_def mat_transpose_def)
    also have "\<dots> = fsum (map (\<lambda>k. fmul (direct_beta t n k) (el (glm_X t) s k)) [0..<?P])"
      by (rule fsum_map_cong) (use that beta SX(3) d(1) in simp)
    finally have "el fitted n s = fsum (map (\<lambda>k. fmul (direct_beta t n k) (el (glm_X t) s k)) [0..<?P])" .
    with that tmp(3) show ?thesis by (simp add: residuals_def direct_residual_def)
  qed
  have norm: "row_norm residuals n
      = fsqrt (fsum (map (\<lambda>s. fmul (direct_residual t n s) (direct_residual t n s)) [0..<?S]))"
    if "n < ?N" for n
  proof -
    have "fsum (map (\<lambda>j. fmul (el residuals n j) (el residuals n j)) [0..<?S])
        = fsum (map (\<lambda>s. fmul (direct_residual t n s) (direct_residual t n s)) [0..<?S])"
      by (rule fsum_map_cong) (use that res in simp)
    moreover have "ncols residuals = ?S" by (simp add: residuals_def)
    ultimately show ?thesis by (simp add: row_norm_def)
  qed
  define tv0 where "tv0 = \<lparr>nrows = ?N, ncols = ncols (glm_scaled_contrasts t),
      el = (\<lambda>i j. fsum (map (\<lambda>k. fmul (el betas i k) (el (glm_scaled_contrasts t) k j)) [0..<?P]))\<rparr>"
  have m: "mat_mult betas (glm_scaled_contrasts t) = Inr tv0"
    using d by (simp add: mat_mult_def betas_def tv0_def)
  define tv where "tv = tv0\<lparr>el := (\<lambda>n j. if n < nrows tv0
                                   then fdiv (el tv0 n j) (row_norm residuals n)
                                   else el tv0 n j)\<rparr>"
  have tt: "ttest (mat_transpose SX) (mat_transpose pinvSX) tmp (glm_scaled_contrasts t) = Inr tv"
    using b f r m by (simp add: ttest_def tv_def)
  have val: "el tv n 0 = direct_tvalue t n" if "n < ?N" for n
  proof -
    have "el tv0 n 0 = fsum (map (\<lambda>k. fmul (el betas n k) (el (glm_scaled_contrasts t) k 0)) [0..<?P])"
      by (simp add: tv0_def)
    also have "\<dots> = fsum (map (\<lambda>k. fmul (direct_beta t n k) (el (glm_scaled_contrasts t) k 0)) [0..<?P])"
      by (rule fsum_map_cong) (use that beta in simp)
    finally have e: "el tv0 n 0 = fsum (map (\<lambda>k. fmul (direct_beta t n k) (el (glm_scaled_contrasts t) k 0)) [0..<?P])" .
    have "el tv n 0 = fdiv (el tv0 n 0) (row_norm residuals n)"
      using that by (simp add: tv_def tv0_def)
    with e norm [OF that] show ?thesis
      by (simp add: direct_tvalue_def)
  qed
  have "nrows tv = ?N" "0 < ncols tv" using d(5) by (simp_all add: tv_def tv0_def)
  with tt val show ?thesis by blast
qed

text \<open>
  The part of C2 that the code keeps. For a test whose members fit together,
  with at most \<open>GLM_BATCH_SIZE\<close> rows of measurements and the identity permutation,
  the call returns, and the statistic of every fixel is the t-value by direct least
  squares, 0 when that is not finite.
\<close>
theorem GLMTTest_call_single_batch:
  assumes ws: "well_sized t" and small: "nrows (glm_y t) \<le> GLM_BATCH_SIZE"
  shows "\<exists>stats' mx' mn'.
           GLMTTest_call junk t [0..<nrows (glm_X t)] stats max_stat min_stat = Inr (stats', mx', mn') \<and>
           length stats' = nrows (glm_y t) \<and>
           (\<forall>n<nrows (glm_y t). stats' ! n = finite_or_zero (direct_tvalue t n))"
proof -
  let ?N = "nrows (glm_y t)"
  let ?stats0 = "resize_stats stats ?N"
  have len0: "length ?stats0 = ?N" by (simp add: resize_stats_def)
  from ws have pc: "ncols (glm_pinvX t) = nrows (glm_X t)" by (simp add: well_sized_def)
  from permute_identity [OF pc, of junk] obtain SX pinvSX where
    p: "permute_design junk (glm_X t) (glm_pinvX t) [0..<nrows (glm_X t)] = Inr (SX, pinvSX)"
    and SX: "nrows SX = nrows (glm_X t)" "ncols SX = ncols (glm_X t)"
      "\<forall>a<nrows (glm_X t). \<forall>b. el SX a b = el (glm_X t) a b"
    and PX: "nrows pinvSX = nrows (glm_pinvX t)" "ncols pinvSX = ncols (glm_pinvX t)"
      "\<forall>a. \<forall>b<nrows (glm_X t). el pinvSX a b = el (glm_pinvX t) a b"
    by blast
  have call: "GLMTTest_call junk t [0..<nrows (glm_X t)] stats max_stat min_stat
      = batch_loop t (mat_transpose SX) (mat_transpose pinvSX) 0 (?stats0, max_stat, min_stat)"
    using p by (simp add: GLMTTest_call_def)
  show ?thesis
  proof (cases "?N = 0")
    case True
    then have "batch_loop t (mat_transpose SX) (mat_transpose pinvSX) 0 (?stats0, max_stat, min_stat)
        = Inr (?stats0, max_stat, min_stat)"
      by (simp add: batch_loop_unfold [of t _ _ 0])
    with call True len0 show ?thesis by simp
  next
    case False
    then have pos: "0 < ?N" by simp
    define tmp where "tmp = \<lparr>nrows = ?N, ncols = ncols (glm_y t), el = (\<lambda>a b. el (glm_y t) (0 + a) (0 + b))\<rparr>"
    have blk: "mat_block (glm_y t) 0 0 (min (0 + GLM_BATCH_SIZE) ?N) (ncols (glm_y t)) = Inr tmp"
      using small by (simp add: mat_block_def tmp_def min_def)
    have tmpd: "nrows tmp = ?N" "ncols tmp = ncols (glm_y t)"
      "\<forall>n<?N. \<forall>s. el tmp n s = el (glm_y t) n s"
      by (simp_all add: tmp_def)
    from ttest_direct [OF ws SX PX tmpd] obtain tv where
      tt: "ttest (mat_transpose SX) (mat_transpose pinvSX) tmp (glm_scaled_contrasts t) = Inr tv"
      and tvd: "nrows tv = ?N" "0 < ncols tv"
      and val: "\<forall>n<?N. el tv n 0 = direct_tvalue t n" by blast
    have rng: "\<forall>n\<in>set [0..<nrows tv]. n < nrows tv \<and> 0 + n < length ?stats0"
      using tvd len0 by simp
    from store_fold [OF tvd(2) rng, of max_stat min_stat] obtain stats' mx' mn' where
      st: "fold_err (store_tvalue tv 0) [0..<nrows tv] (?stats0, max_stat, min_stat) = Inr (stats', mx', mn')"
      and len: "length stats' = length ?stats0"
      and ev: "\<forall>m<length ?stats0. stats' ! m =
              (if \<exists>n\<in>set [0..<nrows tv]. m = 0 + n then finite_or_zero (el tv (m - 0) 0) else ?stats0 ! m)"
      by auto
    have last: "batch_loop t (mat_transpose SX) (mat_transpose pinvSX) (0 + GLM_BATCH_SIZE) (stats', mx', mn')
        = Inr (stats', mx', mn')"
      using small by (simp add: batch_loop_unfold [of t _ _ GLM_BATCH_SIZE])
    have "batch_loop t (mat_transpose SX) (mat_transpose pinvSX) 0 (?stats0, max_stat, min_stat)
        = Inr (stats', mx', mn')"
      using pos blk tt st last by (simp add: batch_loop_unfold [of t _ _ 0])
    moreover have "\<forall>n<?N. stats' ! n = finite_or_zero (direct_tvalue t n)"
      using ev val tvd(1) len0 by simp
    ultimately show ?thesis using call len len0 by simp
  qed
qed

theorem GLMTTest_call_single_batch_witness:
  "well_sized small_test \<and> nrows (glm_y small_test) \<le> GLM_BATCH_SIZE \<and>
   (\<exists>stats' mx' mn'.
      GLMTTest_call (\<lambda>i j. NaN) small_test [0..<nrows (glm_X small_test)] [] MInf PInf
        = Inr (stats', mx', mn') \<and>
      stats' ! 0 = Fin 1 \<and> stats' ! 1 = Fin 1)"
proof -
  have w: "well_sized small_test"
    by (simp add: well_sized_def small_test_def overrun_test_def mat_of_rows_def)
  have s: "nrows (glm_y small_test) \<le> GLM_BATCH_SIZE"
    by (simp add: small_test_def overrun_test_def GLM_BATCH_SIZE_def)
  have v: "finite_or_zero (direct_tvalue small_test n) = Fin 1" for n
    by (simp add: finite_or_zero_def direct_tvalue_def direct_residual_def direct_beta_def
        small_test_def overrun_test_def mat_of_rows_def fsum_def fsub_def upt_rec)
  from GLMTTest_call_single_batch [OF w s, of "\<lambda>i j. NaN" "[]" MInf PInf]
  obtain stats' mx' mn' where
    c: "GLMTTest_call (\<lambda>i j. NaN) small_test [0..<nrows (glm_X small_test)] [] MInf PInf
        = Inr (stats', mx', mn')"
    and e: "\<forall>n<nrows (glm_y small_test). stats' ! n = finite_or_zero (direct_tvalue small_test n)"
    by blast
  have "nrows (glm_y small_test) = 2" by (simp add: small_test_def)
  with e v have "stats' ! 0 = Fin 1 \<and> stats' ! 1 = Fin 1" by simp
  with w s c show ?thesis by blast
qed


section \<open>The contrast matrix is univariate\<close>

lemma scale_contrasts_exception_iff:
  "(\<exists>msg. scale_contrasts pinv junk contrasts design dof = Inl (Exception msg)) \<longleftrightarrow>
   (ncols contrasts > 1 \<and> nrows contrasts > 1)"
proof (cases "ncols contrasts > 1 \<and> nrows contrasts > 1")
  case True
  then show ?thesis by (simp add: scale_contrasts_def Let_def)
next
  case False
  have "e = OutOfBounds" if "scale_contrasts pinv junk contrasts design dof = Inl e" for e
  proof -
    from that False obtain XtX s0 where
      "fold_err (scale_contrasts_step XtX contrasts dof) [0..<nrows contrasts] s0 = Inl e"
      by (auto simp: scale_contrasts_def Let_def split: if_splits)
    then show ?thesis by (rule fold_err_only [rotated]) (rule scale_contrasts_step_only)
  qed
  with False show ?thesis by auto
qed

lemma GLMTTest_init_exception_iff:
  "(\<exists>msg. GLMTTest_init pinv rank junk measurements design contrasts = Inl (Exception msg)) \<longleftrightarrow>
   (ncols contrasts > 1 \<and> nrows contrasts > 1)"
proof -
  let ?dof = "(nrows design + 2 ^ 64 - rank design mod 2 ^ 64) mod 2 ^ 64"
  have "(\<exists>msg. GLMTTest_init pinv rank junk measurements design contrasts = Inl (Exception msg)) \<longleftrightarrow>
        (\<exists>msg. scale_contrasts pinv junk contrasts design ?dof = Inl (Exception msg))"
    by (auto simp: GLMTTest_init_def split: sum.splits)
  then show ?thesis by (simp only: scale_contrasts_exception_iff)
qed

lemma scale_single_row:
  assumes "nrows contrasts = 1" "ncols contrasts = ncols design"
    and "nrows (pinv (gram design)) = ncols design" "ncols (pinv (gram design)) = ncols design"
  shows "\<exists>sc. scale_contrasts pinv junk contrasts design dof = Inr sc \<and> nrows sc = 1 \<and> ncols sc = ncols design"
  using assms
  by (simp add: scale_contrasts_def Let_def mat_resize_def scale_contrasts_step_def scale_row_def)

text \<open>
  What the code keeps of the acceptance of vectors. Scaling the contrasts, and with it
  the construction of the test, throws exactly when the contrast matrix has more than
  one column and more than one row; so does the older constructor, which otherwise goes
  on with the contrast as a column vector. A contrast of a single row as wide as the
  design is scaled.
\<close>
theorem univariate_contrast_only:
  "((\<exists>msg. scale_contrasts pinv junk contrasts design dof = Inl (Exception msg)) \<longleftrightarrow>
      (ncols contrasts > 1 \<and> nrows contrasts > 1)) \<and>
   ((\<exists>msg. GLMTTest_init pinv rank junk measurements design contrasts = Inl (Exception msg)) \<longleftrightarrow>
      (ncols contrasts > 1 \<and> nrows contrasts > 1)) \<and>
   ((\<exists>e. TFCEProcessorBase_contrast contrasts = Inl e) \<longleftrightarrow>
      (ncols contrasts > 1 \<and> nrows contrasts > 1)) \<and>
   (ncols contrasts \<le> 1 \<or> nrows contrasts \<le> 1 \<longrightarrow>
      (\<exists>c. TFCEProcessorBase_contrast contrasts = Inr c \<and> ncols c \<le> 1)) \<and>
   (nrows contrasts = 1 \<and> ncols contrasts = ncols design \<and>
    nrows (pinv (gram design)) = ncols design \<and> ncols (pinv (gram design)) = ncols design \<longrightarrow>
      (\<exists>sc. scale_contrasts pinv junk contrasts design dof = Inr sc \<and>
            nrows sc = 1 \<and> ncols sc = ncols design))"
proof -
  have a: "(\<exists>e. TFCEProcessorBase_contrast contrasts = Inl e) \<longleftrightarrow>
      (ncols contrasts > 1 \<and> nrows contrasts > 1)"
    by (simp add: TFCEProcessorBase_contrast_def Let_def)
  have b: "ncols contrasts \<le> 1 \<or> nrows contrasts \<le> 1 \<longrightarrow>
      (\<exists>c. TFCEProcessorBase_contrast contrasts = Inr c \<and> ncols c \<le> 1)"
    by (auto simp: TFCEProcessorBase_contrast_def Let_def mat_transpose_def)
  have c: "nrows contrasts = 1 \<and> ncols contrasts = ncols design \<and>
    nrows (pinv (gram design)) = ncols design \<and> ncols (pinv (gram design)) = ncols design \<longrightarrow>
      (\<exists>sc. scale_contrasts pinv junk contrasts design dof = Inr sc \<and>
            nrows sc = 1 \<and> ncols sc = ncols design)"
    using scale_single_row [of contrasts design pinv junk dof] by blast
  from a b c scale_contrasts_exception_iff [of pinv junk contrasts design dof]
    GLMTTest_init_exception_iff [of pinv rank junk measurements design contrasts]
  show ?thesis by blast
qed

text \<open>The same on the example design.\<close>
theorem univariate_contrast_only_witness:
  "scale_contrasts example_pinv (\<lambda>i j. NaN) (mat_of_rows [[Fin 1, Fin (- 1)], [Fin 0, Fin 1]]) example_design 1
     = Inl (Exception univariate_only) \<and>
   (\<exists>sc. scale_contrasts example_pinv (\<lambda>i j. NaN) (mat_of_rows [[Fin 1, Fin (- 1)]]) example_design 1 = Inr sc) \<and>
   (\<exists>c. TFCEProcessorBase_contrast (mat_of_rows [[Fin 1, Fin (- 1)]]) = Inr c \<and> ncols c \<le> 1)"
proof -
  note t = univariate_contrast_only [of example_pinv "\<lambda>i j. NaN" "mat_of_rows [[Fin 1, Fin (- 1)]]"
      example_design 1 "\<lambda>m. 2" example_measurements]
  have d: "nrows (mat_of_rows [[Fin 1, Fin (- 1)]]) = 1 \<and>
           ncols (mat_of_rows [[Fin 1, Fin (- 1)]]) = ncols example_design \<and>
           nrows (example_pinv (gram example_design)) = ncols example_design \<and>
           ncols (example_pinv (gram example_design)) = ncols example_design"
    by (simp add: mat_of_rows_def example_design_def example_pinv_def gram_def)
  have e: "ncols (mat_of_rows [[Fin 1, Fin (- 1)]]) \<le> 1 \<or> nrows (mat_of_rows [[Fin 1, Fin (- 1)]]) \<le> 1"
    by (simp add: mat_of_rows_def)
  have x: "scale_contrasts example_pinv (\<lambda>i j. NaN) (mat_of_rows [[Fin 1, Fin (- 1)], [Fin 0, Fin 1]]) example_design 1
     = Inl (Exception univariate_only)"
    by (simp add: scale_contrasts_def Let_def mat_of_rows_def)
  from t d e x show ?thesis by blast
qed


text \<open>
  Passing the check is not yet a scaled contrast. For a contrast of a single column and
  more than one row the loop runs over the rows of the given matrix, while the matrix it
  scales has been transposed and has one row at most: its second pass reads a row that
  is not there.
\<close>

lemma scale_contrasts_step_nrows:
  "scale_contrasts_step XtX contrasts dof n s = Inr s' \<Longrightarrow> nrows s' = nrows s \<and> n < nrows s"
  by (auto simp: scale_contrasts_step_def Let_def scale_row_def split: if_splits)

lemma scale_contrasts_loop_short:
  "n \<in> set ns \<Longrightarrow> nrows s \<le> n \<Longrightarrow>
   fold_err (scale_contrasts_step XtX contrasts dof) ns s = Inl OutOfBounds"
proof (induction ns arbitrary: s)
  case Nil
  then show ?case by simp
next
  case (Cons m ns)
  show ?case
  proof (cases "scale_contrasts_step XtX contrasts dof m s")
    case (Inl e)
    with scale_contrasts_step_only [OF Inl] show ?thesis by simp
  next
    case (Inr s')
    from scale_contrasts_step_nrows [OF Inr] have k: "nrows s' = nrows s" and m: "m < nrows s"
      by simp_all
    with Cons.prems have "n \<in> set ns" by auto
    from Cons.IH [OF this, of s'] k Cons.prems(2) Inr show ?thesis by simp
  qed
qed

lemma scale_contrasts_column:
  assumes "1 < nrows contrasts" "ncols contrasts \<le> 1"
  shows "scale_contrasts pinv junk contrasts design dof = Inl OutOfBounds"
proof -
  define resized where
    "resized = mat_resize junk (mat_transpose contrasts) (nrows (mat_transpose contrasts)) (ncols design)"
  have r: "nrows resized \<le> 1"
    using assms(2) by (simp add: resized_def mat_resize_def mat_transpose_def)
  have "1 \<in> set [0..<nrows contrasts]" using assms(1) by simp
  from scale_contrasts_loop_short [OF this r]
  have "fold_err (scale_contrasts_step (pinv (gram design)) contrasts dof) [0..<nrows contrasts] resized
          = Inl OutOfBounds" .
  with assms show ?thesis
    by (simp add: scale_contrasts_def Let_def resized_def)
qed


text \<open>
  C8 does not hold for a contrast of a single column. A contrast matrix of one column
  and more than one row throws nothing, and yet it is not accepted: scaling it, and with
  it the construction of the test, ends in an access out of bounds, for every design and
  whatever the pseudo-inverse is. The older constructor takes the same contrast as it
  is, a column vector.
\<close>
theorem single_column_contrast_out_of_bounds:
  assumes "1 < nrows contrasts" "ncols contrasts \<le> 1"
  shows "scale_contrasts pinv junk contrasts design dof = Inl OutOfBounds \<and>
         GLMTTest_init pinv rank junk measurements design contrasts = Inl OutOfBounds \<and>
         TFCEProcessorBase_contrast contrasts = Inr contrasts"
proof -
  have a: "scale_contrasts pinv junk contrasts design d = Inl OutOfBounds" for d
    by (rule scale_contrasts_column [OF assms])
  have b: "GLMTTest_init pinv rank junk measurements design contrasts = Inl OutOfBounds"
    by (simp add: GLMTTest_init_def a)
  have c: "TFCEProcessorBase_contrast contrasts = Inr contrasts"
    using assms(2) by (simp add: TFCEProcessorBase_contrast_def Let_def)
  from a b c show ?thesis by blast
qed

text \<open>C8 on the example design, with the contrast 1, -1 written as a column.\<close>
theorem single_column_contrast_out_of_bounds_witness:
  "1 < nrows (mat_of_rows [[Fin 1], [Fin (- 1)]]) \<and>
   ncols (mat_of_rows [[Fin 1], [Fin (- 1)]]) \<le> 1 \<and>
   scale_contrasts example_pinv (\<lambda>i j. NaN) (mat_of_rows [[Fin 1], [Fin (- 1)]]) example_design 1
     = Inl OutOfBounds \<and>
   GLMTTest_init example_pinv (\<lambda>m. 2) (\<lambda>i j. NaN) example_measurements example_design
     (mat_of_rows [[Fin 1], [Fin (- 1)]]) = Inl OutOfBounds \<and>
   TFCEProcessorBase_contrast (mat_of_rows [[Fin 1], [Fin (- 1)]]) = Inr (mat_of_rows [[Fin 1], [Fin (- 1)]])"
proof -
  have r: "1 < nrows (mat_of_rows [[Fin 1], [Fin (- 1)]])"
    by (simp add: mat_of_rows_def)
  have c: "ncols (mat_of_rows [[Fin 1], [Fin (- 1)]]) \<le> 1"
    by (simp add: mat_of_rows_def)
  from single_column_contrast_out_of_bounds [OF r c, of example_pinv "\<lambda>i j. NaN" example_design 1
      "\<lambda>m. 2" example_measurements] r c
  show ?thesis by blast
qed


section \<open>What the t-test reads of the contrast\<close>

lemma mat_mult_first_column:
  assumes "same_first_column sc1 sc2"
  shows "(mat_mult b sc1 = Inl OutOfBounds \<and> mat_mult b sc2 = Inl OutOfBounds) \<or>
         (\<exists>t1 t2. mat_mult b sc1 = Inr t1 \<and> mat_mult b sc2 = Inr t2 \<and> same_first_column t1 t2)"
proof (cases "ncols b = nrows sc1")
  case False
  with assms show ?thesis by (simp add: mat_mult_def same_first_column_def)
next
  case True
  have eq: "fsum (map (\<lambda>k. fmul (el b i k) (el sc1 k 0)) [0..<ncols b])
        = fsum (map (\<lambda>k. fmul (el b i k) (el sc2 k 0)) [0..<ncols b])" for i
  proof -
    have "map (\<lambda>k. fmul (el b i k) (el sc1 k 0)) [0..<ncols b]
        = map (\<lambda>k. fmul (el b i k) (el sc2 k 0)) [0..<ncols b]"
      using assms True by (simp add: same_first_column_def)
    then show ?thesis by (rule arg_cong)
  qed
  have n: "nrows sc1 = nrows sc2" and c: "(ncols sc1 = 0) = (ncols sc2 = 0)"
    using assms by (simp_all add: same_first_column_def)
  have "same_first_column
          \<lparr>nrows = nrows b, ncols = ncols sc1,
             el = (\<lambda>i j. fsum (map (\<lambda>k. fmul (el b i k) (el sc1 k j)) [0..<ncols b]))\<rparr>
          \<lparr>nrows = nrows b, ncols = ncols sc2,
             el = (\<lambda>i j. fsum (map (\<lambda>k. fmul (el b i k) (el sc2 k j)) [0..<ncols b]))\<rparr>"
    using c eq by (simp add: same_first_column_def)
  with True n show ?thesis by (simp add: mat_mult_def)
qed

lemma ttest_first_column:
  assumes "same_first_column sc1 sc2"
  shows "(\<exists>e. ttest d p m sc1 = Inl e \<and> ttest d p m sc2 = Inl e) \<or>
         (\<exists>t1 t2. ttest d p m sc1 = Inr t1 \<and> ttest d p m sc2 = Inr t2 \<and> same_first_column t1 t2)"
proof (cases "mat_mult m p")
  case (Inl e)
  then show ?thesis by (simp add: ttest_def)
next
  case betas: (Inr betas)
  show ?thesis
  proof (cases "mat_mult betas d")
    case (Inl e)
    with betas show ?thesis by (simp add: ttest_def)
  next
    case fitted: (Inr fitted)
    show ?thesis
    proof (cases "mat_sub m fitted")
      case (Inl e)
      with betas fitted show ?thesis by (simp add: ttest_def)
    next
      case res: (Inr residuals)
      from mat_mult_first_column [OF assms, of betas] show ?thesis
      proof
        assume "mat_mult betas sc1 = Inl OutOfBounds \<and> mat_mult betas sc2 = Inl OutOfBounds"
        with betas fitted res show ?thesis by (simp add: ttest_def)
      next
        assume "\<exists>t1 t2. mat_mult betas sc1 = Inr t1 \<and> mat_mult betas sc2 = Inr t2 \<and> same_first_column t1 t2"
        then obtain t1 t2 where t: "mat_mult betas sc1 = Inr t1" "mat_mult betas sc2 = Inr t2"
          and s: "same_first_column t1 t2" by blast
        from s have "same_first_column
            (t1\<lparr>el := (\<lambda>n j. if n < nrows t1 then fdiv (el t1 n j) (row_norm residuals n) else el t1 n j)\<rparr>)
            (t2\<lparr>el := (\<lambda>n j. if n < nrows t2 then fdiv (el t2 n j) (row_norm residuals n) else el t2 n j)\<rparr>)"
          by (simp add: same_first_column_def)
        with betas fitted res t show ?thesis by (simp add: ttest_def)
      qed
    qed
  qed
qed

lemma store_tvalue_first_column:
  assumes "same_first_column t1 t2"
  shows "store_tvalue t1 i n S = store_tvalue t2 i n S"
proof -
  obtain stats mx mn where S: "S = (stats, mx, mn)" by (cases S)
  have n: "nrows t1 = nrows t2" and c: "(0 < ncols t1) = (0 < ncols t2)"
    using assms by (auto simp: same_first_column_def)
  show ?thesis
  proof (cases "n < nrows t1")
    case True
    with assms have "el t1 n 0 = el t2 n 0" by (simp add: same_first_column_def)
    with n c show ?thesis by (simp add: store_tvalue_def S)
  next
    case False
    with n show ?thesis by (simp add: store_tvalue_def S)
  qed
qed

lemma batch_loop_first_column:
  assumes "same_first_column sc1 sc2"
  shows "batch_loop (t\<lparr>glm_scaled_contrasts := sc1\<rparr>) SX pinvSX i S
       = batch_loop (t\<lparr>glm_scaled_contrasts := sc2\<rparr>) SX pinvSX i S"
proof (induction "nrows (glm_y t) - i" arbitrary: i S rule: less_induct)
  case less
  let ?t1 = "t\<lparr>glm_scaled_contrasts := sc1\<rparr>" and ?t2 = "t\<lparr>glm_scaled_contrasts := sc2\<rparr>"
  show ?case
  proof (cases "i < nrows (glm_y t)")
    case False
    then show ?thesis
      by (simp add: batch_loop_unfold [of ?t1 SX pinvSX i S] batch_loop_unfold [of ?t2 SX pinvSX i S])
  next
    case True
    have dec: "nrows (glm_y t) - (i + GLM_BATCH_SIZE) < nrows (glm_y t) - i"
      using True by (simp add: GLM_BATCH_SIZE_def)
    note rec = less.hyps [OF dec]
    show ?thesis
    proof (cases "mat_block (glm_y t) i 0 (min (i + GLM_BATCH_SIZE) (nrows (glm_y t))) (ncols (glm_y t))")
      case (Inl e)
      with True show ?thesis
        by (simp add: batch_loop_unfold [of ?t1 SX pinvSX i S] batch_loop_unfold [of ?t2 SX pinvSX i S])
    next
      case blk: (Inr tmp)
      from ttest_first_column [OF assms, of SX pinvSX tmp] show ?thesis
      proof
        assume "\<exists>e. ttest SX pinvSX tmp sc1 = Inl e \<and> ttest SX pinvSX tmp sc2 = Inl e"
        with True blk show ?thesis
          by (auto simp: batch_loop_unfold [of ?t1 SX pinvSX i S] batch_loop_unfold [of ?t2 SX pinvSX i S])
      next
        assume "\<exists>t1 t2. ttest SX pinvSX tmp sc1 = Inr t1 \<and> ttest SX pinvSX tmp sc2 = Inr t2 \<and> same_first_column t1 t2"
        then obtain t1 t2 where tt: "ttest SX pinvSX tmp sc1 = Inr t1" "ttest SX pinvSX tmp sc2 = Inr t2"
          and s: "same_first_column t1 t2" by blast
        have f: "fold_err (store_tvalue t1 i) [0..<nrows t1] S = fold_err (store_tvalue t2 i) [0..<nrows t2] S"
        proof -
          have "nrows t1 = nrows t2" using s by (simp add: same_first_column_def)
          moreover have "store_tvalue t1 i = store_tvalue t2 i"
            using store_tvalue_first_column [OF s] by (intro ext)
          ultimately show ?thesis by simp
        qed
        show ?thesis
          using True blk tt f rec
          by (simp add: batch_loop_unfold [of ?t1 SX pinvSX i S] batch_loop_unfold [of ?t2 SX pinvSX i S]
              split: sum.splits)
      qed
    qed
  qed
qed

text \<open>
  C7, as the code has it. The call operator reads the scaled contrasts only through
  column 0 of the stored matrix, which is row 0 of the scaled contrast matrix: two
  tests with the same measurements, design and pseudo-inverse whose stored matrices
  have the same column 0 return the same statistics, maximum and minimum, or fail alike.
\<close>
theorem GLMTTest_call_first_column:
  assumes "same_first_column sc1 sc2"
  shows "GLMTTest_call junk (t\<lparr>glm_scaled_contrasts := sc1\<rparr>) perm_labelling stats max_stat min_stat
       = GLMTTest_call junk (t\<lparr>glm_scaled_contrasts := sc2\<rparr>) perm_labelling stats max_stat min_stat"
  using batch_loop_first_column [OF assms, of t]
  by (simp add: GLMTTest_call_def split: sum.splits prod.splits)

text \<open>C7 on the example, with a second column in one of the two stored matrices.\<close>
theorem GLMTTest_call_first_column_witness:
  "same_first_column (mat_of_rows [[Fin 1, Fin 5], [Fin (- 1), Fin 6]]) (mat_of_rows [[Fin 1], [Fin (- 1)]]) \<and>
   GLMTTest_call (\<lambda>i j. NaN)
     (\<lparr>glm_y = example_measurements, glm_X = example_design, glm_pinvX = example_pinv example_design,
       glm_scaled_contrasts = mat_of_rows [[Fin 1, Fin 5], [Fin (- 1), Fin 6]]\<rparr>) [0, 1, 2] [] MInf PInf
   = GLMTTest_call (\<lambda>i j. NaN)
     (\<lparr>glm_y = example_measurements, glm_X = example_design, glm_pinvX = example_pinv example_design,
       glm_scaled_contrasts = mat_of_rows [[Fin 1], [Fin (- 1)]]\<rparr>) [0, 1, 2] [] MInf PInf"
proof -
  have h: "same_first_column (mat_of_rows [[Fin 1, Fin 5], [Fin (- 1), Fin 6]]) (mat_of_rows [[Fin 1], [Fin (- 1)]])"
    by (auto simp: same_first_column_def mat_of_rows_def less_Suc_eq)
  from GLMTTest_call_first_column [OF h, of "\<lambda>i j. NaN"
      "\<lparr>glm_y = example_measurements, glm_X = example_design, glm_pinvX = example_pinv example_design,
        glm_scaled_contrasts = mat_of_rows [[Fin 1]]\<rparr>" "[0, 1, 2]" "[]" MInf PInf] h
  show ?thesis by simp
qed

lemma ex_multi:
  "GLMTTest_run example_pinv (\<lambda>m. 2) (\<lambda>i j. NaN) example_measurements example_design
     (mat_of_rows [[Fin 1, Fin (- 1)], [Fin 0, Fin 1]]) [0, 1, 2] [] MInf PInf
   = Inl (Exception univariate_only)"
  by (simp add: GLMTTest_run_def GLMTTest_init_def scale_contrasts_def Let_def mat_of_rows_def)

lemma ex_single:
  "\<not> isl (GLMTTest_run example_pinv (\<lambda>m. 2) (\<lambda>i j. NaN) example_measurements example_design
     (mat_of_rows [[Fin 1, Fin (- 1)]]) [0, 1, 2] [] MInf PInf)"
  by (simp add: GLMTTest_run_def GLMTTest_init_def scale_contrasts_def Let_def gram_def
      example_design_def example_measurements_def example_pinv_def mat_of_rows_def mat_resize_def
      scale_contrasts_step_def scale_row_def mat_transpose_def GLMTTest_call_def permute_design_def
      permute_step_def resize_stats_def upt_rec batch_loop_unfold GLM_BATCH_SIZE_def
      mat_block_def ttest_def mat_mult_def mat_sub_def store_tvalue_def)

text \<open>
  C7 as stated fails: two contrast matrices with the same first row, the one with a
  second row of two columns. The test of the first returns statistics, the construction
  of the second throws.
\<close>
theorem GLMTTest_first_row_counterexample:
  "\<not> isl (GLMTTest_run example_pinv (\<lambda>m. 2) (\<lambda>i j. NaN) example_measurements example_design
     (mat_of_rows [[Fin 1, Fin (- 1)]]) [0, 1, 2] [] MInf PInf) \<and>
   GLMTTest_run example_pinv (\<lambda>m. 2) (\<lambda>i j. NaN) example_measurements example_design
     (mat_of_rows [[Fin 1, Fin (- 1)], [Fin 0, Fin 1]]) [0, 1, 2] [] MInf PInf
   = Inl (Exception univariate_only)"
  using ex_single ex_multi by blast

end
